theory Spec2Isabelle
  imports Main "HOL-Library.Word" "HOL-Library.Char_ord" "HOL-Library.List_Lexorder"
begin

unbundle bit_operations_syntax

section \<open>JSON values and \<open>json.dumps(..., sort_keys=True)\<close>\<close>

text \<open>
  The values that travel through \<open>chains\<close>: the dictionaries made by \<open>Block.dict()\<close>,
  \<open>ChainProposal.dict()\<close> and the literals of \<open>create_genesis\<close> and \<open>send_message\<close>.
  A dictionary is an association list in insertion order (keys are strings, as in JSON).
  Python strings are modelled as \<open>string\<close>, one \<open>char\<close> per code point below 256; floats
  are not part of the model.
\<close>

datatype json =
    JNull
  | JBool bool
  | JInt int
  | JStr string
  | JList "json list"
  | JObj "(string \<times> json) list"

definition hexdigit :: "nat \<Rightarrow> char" where
  "hexdigit n = ''0123456789abcdef'' ! (n mod 16)"

definition digit_char :: "nat \<Rightarrow> char" where
  "digit_char n = char_of (48 + n mod 10)"

text \<open>\<open>str(n)\<close> for a Python int: decimal, no leading zeros, a minus sign when negative.\<close>

fun nat_str :: "nat \<Rightarrow> string" where
  "nat_str n = (if n < 10 then [digit_char n] else nat_str (n div 10) @ [digit_char (n mod 10)])"

declare nat_str.simps [simp del]

definition int_str :: "int \<Rightarrow> string" where
  "int_str i = (if i < 0 then CHR ''-'' # nat_str (nat (- i)) else nat_str (nat i))"

text \<open>
  \<open>json.encoder.encode_basestring_ascii\<close> (the default \<open>ensure_ascii=True\<close>): backslash and
  the double quote get a backslash, the five named control characters their letter, every
  other character outside \<open>' '..'~'\<close> becomes \<open>\uXXXX\<close> with four lowercase hex digits.
\<close>

definition escape_char :: "char \<Rightarrow> string" where
  "escape_char c =
     (if c = CHR 0x5C then [CHR 0x5C, CHR 0x5C]
      else if c = CHR 0x22 then [CHR 0x5C, CHR 0x22]
      else if c = CHR 0x08 then [CHR 0x5C, CHR ''b'']
      else if c = CHR 0x0C then [CHR 0x5C, CHR ''f'']
      else if c = CHR 0x0A then [CHR 0x5C, CHR ''n'']
      else if c = CHR 0x0D then [CHR 0x5C, CHR ''r'']
      else if c = CHR 0x09 then [CHR 0x5C, CHR ''t'']
      else if 32 \<le> (of_char c :: nat) \<and> (of_char c :: nat) \<le> 126 then [c]
      else [CHR 0x5C, CHR ''u'', CHR ''0'', CHR ''0'',
            hexdigit ((of_char c :: nat) div 16), hexdigit ((of_char c :: nat) mod 16)])"

definition encode_basestring_ascii :: "string \<Rightarrow> string" where
  "encode_basestring_ascii s = CHR 0x22 # concat (map escape_char s) @ [CHR 0x22]"

text \<open>\<open>sep.join(parts)\<close>.\<close>

fun join :: "string \<Rightarrow> string list \<Rightarrow> string" where
  "join sep [] = []"
| "join sep [x] = x"
| "join sep (x # y # ys) = x @ sep @ join sep (y # ys)"

text \<open>
  \<open>json.dumps(v, sort_keys=True)\<close> with the default separators \<open>', '\<close> and \<open>': '\<close>: the items
  of every dictionary are written in the order of \<open>sorted(dct.items())\<close>, that is by key
  (code point order).
\<close>

fun json_dumps :: "json \<Rightarrow> string" where
  "json_dumps JNull = ''null''"
| "json_dumps (JBool b) = (if b then ''true'' else ''false'')"
| "json_dumps (JInt i) = int_str i"
| "json_dumps (JStr s) = encode_basestring_ascii s"
| "json_dumps (JList xs) = ''['' @ join '', '' (map json_dumps xs) @ '']''"
| "json_dumps (JObj kvs) =
     ''{'' @ join '', ''
        (map (\<lambda>kv. encode_basestring_ascii (fst kv) @ '': '' @ json_dumps (snd kv))
          (sort_key fst kvs)) @ ''}''"

section \<open>\<open>hashlib.sha256\<close>\<close>

type_synonym byte = "8 word"
type_synonym u32 = "32 word"

text \<open>\<open>str.encode()\<close>: UTF-8 of code points below 256.\<close>

definition utf8_char :: "char \<Rightarrow> byte list" where
  "utf8_char c =
     (let n = (of_char c :: nat) in
      if n < 128 then [of_nat n] else [of_nat (192 + n div 64), of_nat (128 + n mod 64)])"

definition encode :: "string \<Rightarrow> byte list" where
  "encode s = concat (map utf8_char s)"

text \<open>
  The round constants of FIPS 180-4 (the first 32 bits of the fractional parts of the cube
  roots of the first 64 primes) and the initial hash value (the same of the square roots of
  the first 8 primes), written in decimal.
\<close>

definition K256 :: "u32 list" where
  "K256 =
    [1116352408, 1899447441, 3049323471, 3921009573,
     961987163, 1508970993, 2453635748, 2870763221,
     3624381080, 310598401, 607225278, 1426881987,
     1925078388, 2162078206, 2614888103, 3248222580,
     3835390401, 4022224774, 264347078, 604807628,
     770255983, 1249150122, 1555081692, 1996064986,
     2554220882, 2821834349, 2952996808, 3210313671,
     3336571891, 3584528711, 113926993, 338241895,
     666307205, 773529912, 1294757372, 1396182291,
     1695183700, 1986661051, 2177026350, 2456956037,
     2730485921, 2820302411, 3259730800, 3345764771,
     3516065817, 3600352804, 4094571909, 275423344,
     430227734, 506948616, 659060556, 883997877,
     958139571, 1322822218, 1537002063, 1747873779,
     1955562222, 2024104815, 2227730452, 2361852424,
     2428436474, 2756734187, 3204031479, 3329325298]"

type_synonym sha_state = "u32 \<times> u32 \<times> u32 \<times> u32 \<times> u32 \<times> u32 \<times> u32 \<times> u32"

definition H256 :: sha_state where
  "H256 = (1779033703, 3144134277, 1013904242, 2773480762,
           1359893119, 2600822924, 528734635, 1541459225)"

definition rotr :: "nat \<Rightarrow> u32 \<Rightarrow> u32" where
  "rotr n x = drop_bit n x OR push_bit (32 - n) x"

definition Ch :: "u32 \<Rightarrow> u32 \<Rightarrow> u32 \<Rightarrow> u32" where
  "Ch x y z = (x AND y) XOR (NOT x AND z)"

definition Maj :: "u32 \<Rightarrow> u32 \<Rightarrow> u32 \<Rightarrow> u32" where
  "Maj x y z = (x AND y) XOR (x AND z) XOR (y AND z)"

definition Sigma0 :: "u32 \<Rightarrow> u32" where
  "Sigma0 x = rotr 2 x XOR rotr 13 x XOR rotr 22 x"

definition Sigma1 :: "u32 \<Rightarrow> u32" where
  "Sigma1 x = rotr 6 x XOR rotr 11 x XOR rotr 25 x"

definition sigma0 :: "u32 \<Rightarrow> u32" where
  "sigma0 x = rotr 7 x XOR rotr 18 x XOR drop_bit 3 x"

definition sigma1 :: "u32 \<Rightarrow> u32" where
  "sigma1 x = rotr 17 x XOR rotr 19 x XOR drop_bit 10 x"

text \<open>Padding: the byte 0x80, zero bytes up to 56 modulo 64, the bit length on 64 bits.\<close>

definition be64 :: "64 word \<Rightarrow> byte list" where
  "be64 w = map (\<lambda>i. ucast (drop_bit (8 * (7 - i)) w)) [0..<8]"

definition sha256_pad :: "byte list \<Rightarrow> byte list" where
  "sha256_pad m =
     m @ [0x80] @ replicate ((119 - length m mod 64) mod 64) 0 @ be64 (of_nat (8 * length m))"

definition be32 :: "byte list \<Rightarrow> u32" where
  "be32 bs = foldl (\<lambda>acc b. push_bit 8 acc OR ucast b) 0 (take 4 bs)"

definition block_words :: "byte list \<Rightarrow> u32 list" where
  "block_words blk = map (\<lambda>i. be32 (drop (4 * i) blk)) [0..<16]"

text \<open>The message schedule: 16 words extended to 64.\<close>

fun schedule :: "nat \<Rightarrow> u32 list \<Rightarrow> u32 list" where
  "schedule 0 w = w"
| "schedule (Suc n) w =
     (let t = length w in
      schedule n (w @ [sigma1 (w ! (t - 2)) + w ! (t - 7) + sigma0 (w ! (t - 15)) + w ! (t - 16)]))"

definition sha_round :: "sha_state \<Rightarrow> u32 \<times> u32 \<Rightarrow> sha_state" where
  "sha_round st kw =
     (case st of (a, b, c, d, e, f, g, h) \<Rightarrow>
        let t1 = h + Sigma1 e + Ch e f g + fst kw + snd kw;
            t2 = Sigma0 a + Maj a b c
        in (t1 + t2, a, b, c, d + t1, e, f, g))"

definition sha_add :: "sha_state \<Rightarrow> sha_state \<Rightarrow> sha_state" where
  "sha_add s t =
     (case s of (a, b, c, d, e, f, g, h) \<Rightarrow>
      case t of (a', b', c', d', e', f', g', h') \<Rightarrow>
        (a + a', b + b', c + c', d + d', e + e', f + f', g + g', h + h'))"

definition compress :: "sha_state \<Rightarrow> byte list \<Rightarrow> sha_state" where
  "compress st blk = sha_add st (foldl sha_round st (zip K256 (schedule 48 (block_words blk))))"

fun sha256_blocks :: "nat \<Rightarrow> sha_state \<Rightarrow> byte list \<Rightarrow> sha_state" where
  "sha256_blocks 0 st bs = st"
| "sha256_blocks (Suc n) st bs = sha256_blocks n (compress st (take 64 bs)) (drop 64 bs)"

definition sha256 :: "byte list \<Rightarrow> sha_state" where
  "sha256 m = (let p = sha256_pad m in sha256_blocks (length p div 64) H256 p)"

definition hex32 :: "u32 \<Rightarrow> string" where
  "hex32 w = map (\<lambda>i. hexdigit (unat (drop_bit (4 * (7 - i)) w AND 0xF))) [0..<8]"

definition hexdigest :: "sha_state \<Rightarrow> string" where
  "hexdigest st =
     (case st of (a, b, c, d, e, f, g, h) \<Rightarrow>
        hex32 a @ hex32 b @ hex32 c @ hex32 d @ hex32 e @ hex32 f @ hex32 g @ hex32 h)"

section \<open>The models of \<open>app/models.py\<close>\<close>

record MessageSender =
  ipAddress :: string
  uuid :: string

record Message =
  sender :: MessageSender
  recipient :: MessageSender
  content :: string
  timestamp :: string

record Block =
  index :: int
  previousHash :: string
  timestamp :: string
  message :: Message
  "proof" :: int
  hash :: string

record ChainProposal =
  blocks :: "Block list"
  network :: json
  status :: json

text \<open>\<open>BaseModel.dict()\<close>: the fields in declaration order, nested models converted too.\<close>

definition sender_dict :: "MessageSender \<Rightarrow> json" where
  "sender_dict p = JObj [(''ipAddress'', JStr (ipAddress p)), (''uuid'', JStr (uuid p))]"

definition message_dict :: "Message \<Rightarrow> json" where
  "message_dict m =
     JObj [(''sender'', sender_dict (sender m)),
           (''recipient'', sender_dict (recipient m)),
           (''content'', JStr (content m)),
           (''timestamp'', JStr (Message.timestamp m))]"

definition block_dict :: "Block \<Rightarrow> json" where
  "block_dict b =
     JObj [(''index'', JInt (index b)),
           (''previousHash'', JStr (previousHash b)),
           (''timestamp'', JStr (Block.timestamp b)),
           (''message'', message_dict (message b)),
           (''proof'', JInt (proof b)),
           (''hash'', JStr (hash b))]"

definition proposal_dict :: "ChainProposal \<Rightarrow> json" where
  "proposal_dict p =
     JObj [(''blocks'', JList (map block_dict (blocks p))),
           (''network'', network p),
           (''status'', status p)]"

section \<open>\<open>calculate_hash\<close> and \<open>is_chain_valid\<close>\<close>

definition calculate_hash :: "Block \<Rightarrow> string" where
  "calculate_hash block =
     (let block_string = encode (json_dumps (JObj
            [(''index'', JInt (index block)),
             (''previousHash'', JStr (previousHash block)),
             (''timestamp'', JStr (Block.timestamp block)),
             (''message'', message_dict (message block)),
             (''proof'', JInt (proof block))]))
      in hexdigest (sha256 block_string))"

text \<open>The \<open>for i in range(1, len(blocks))\<close> loop of \<open>is_chain_valid\<close>, from index \<open>i\<close> on
  (\<open>bs\<close> is the argument \<open>blocks\<close>).\<close>

function valid_from :: "nat \<Rightarrow> Block list \<Rightarrow> bool" where
  "valid_from i bs =
     (if i < length bs then
        (let current = bs ! i; previous = bs ! (i - 1) in
         if previousHash current \<noteq> calculate_hash previous then False
         else if hash current \<noteq> calculate_hash current then False
         else valid_from (Suc i) bs)
      else True)"
  by pat_completeness auto
termination
  by (relation "measure (\<lambda>(i, bs). length bs - i)") auto

declare valid_from.simps [simp del]

definition is_chain_valid :: "Block list \<Rightarrow> bool" where
  "is_chain_valid bs =
     (if length bs = 0 then False
      else if index (bs ! 0) \<noteq> 1 \<or> previousHash (bs ! 0) \<noteq> ''0''
              \<or> hash (bs ! 0) \<noteq> calculate_hash (bs ! 0) then False
      else valid_from 1 bs)"

section \<open>\<open>json.loads\<close>\<close>

text \<open>
  The decoder of the standard library, restricted to the values of type \<open>json\<close>: a number
  with a fraction or an exponent, \<open>NaN\<close>, \<open>Infinity\<close> and a \<open>\uXXXX\<close> escape of a code
  point above 255 have no value in this model, and the decoder answers \<open>None\<close> for them as
  it does for malformed text.
\<close>

datatype error = HTTPException nat string | IndexError | JSONDecodeError

definition is_ws :: "char \<Rightarrow> bool" where
  "is_ws c = (c = CHR '' '' \<or> c = CHR 0x09 \<or> c = CHR 0x0A \<or> c = CHR 0x0D)"

definition skip_ws :: "string \<Rightarrow> string" where
  "skip_ws s = dropWhile is_ws s"

definition is_digit :: "char \<Rightarrow> bool" where
  "is_digit c = (48 \<le> (of_char c :: nat) \<and> (of_char c :: nat) \<le> 57)"

definition digits_val :: "string \<Rightarrow> nat" where
  "digits_val ds = foldl (\<lambda>acc d. 10 * acc + ((of_char d :: nat) - 48)) 0 ds"

definition hex_val :: "char \<Rightarrow> nat option" where
  "hex_val c =
     (let n = (of_char c :: nat) in
      if 48 \<le> n \<and> n \<le> 57 then Some (n - 48)
      else if 97 \<le> n \<and> n \<le> 102 then Some (n - 87)
      else if 65 \<le> n \<and> n \<le> 70 then Some (n - 55)
      else None)"

text \<open>The four hex digits after \<open>\u\<close>.\<close>

definition decode_uXXXX :: "string \<Rightarrow> nat option" where
  "decode_uXXXX s =
     (if length s < 4 \<or> (\<exists>c \<in> set (take 4 s). hex_val c = None) then None
      else Some (foldl (\<lambda>acc c. 16 * acc + the (hex_val c)) 0 (take 4 s)))"

text \<open>The table \<open>BACKSLASH\<close> of \<open>json.decoder\<close>.\<close>

definition backslash :: "char \<Rightarrow> char option" where
  "backslash esc =
     (if esc = CHR 0x22 then Some (CHR 0x22)
      else if esc = CHR 0x5C then Some (CHR 0x5C)
      else if esc = CHR ''/'' then Some (CHR ''/'')
      else if esc = CHR ''b'' then Some (CHR 0x08)
      else if esc = CHR ''f'' then Some (CHR 0x0C)
      else if esc = CHR ''n'' then Some (CHR 0x0A)
      else if esc = CHR ''r'' then Some (CHR 0x0D)
      else if esc = CHR ''t'' then Some (CHR 0x09)
      else None)"

text \<open>
  \<open>scanstring\<close> (strict), called after the opening quote: the decoded string and the text
  after the closing quote.
\<close>

fun scanstring :: "string \<Rightarrow> (string \<times> string) option" where
  "scanstring [] = None"
| "scanstring (c # cs) =
     (if c = CHR 0x22 then Some ([], cs)
      else if c = CHR 0x5C then
        (case cs of
           [] \<Rightarrow> None
         | esc # r \<Rightarrow>
             if esc = CHR ''u'' then
               (case decode_uXXXX r of
                  None \<Rightarrow> None
                | Some uni \<Rightarrow>
                    if 256 \<le> uni then None
                    else (case scanstring (drop 4 r) of
                            None \<Rightarrow> None
                          | Some (str, rest) \<Rightarrow> Some (char_of uni # str, rest)))
             else
               (case backslash esc of
                  None \<Rightarrow> None
                | Some ch \<Rightarrow>
                    (case scanstring r of
                       None \<Rightarrow> None
                     | Some (str, rest) \<Rightarrow> Some (ch # str, rest))))
      else if (of_char c :: nat) < 32 then None
      else (case scanstring cs of
              None \<Rightarrow> None
            | Some (str, rest) \<Rightarrow> Some (c # str, rest)))"

text \<open>
  \<open>NUMBER_RE\<close>: an optional minus sign, then \<open>0\<close> or a digit string without leading zero.
  When a fraction or an exponent follows, Python builds a float.
\<close>

definition float_follows :: "string \<Rightarrow> bool" where
  "float_follows r =
     (case r of
        c # d # r' \<Rightarrow>
          (c = CHR ''.'' \<and> is_digit d)
          \<or> ((c = CHR ''e'' \<or> c = CHR ''E'')
              \<and> (is_digit d \<or> ((d = CHR ''+'' \<or> d = CHR ''-'') \<and> r' \<noteq> [] \<and> is_digit (hd r'))))
      | _ \<Rightarrow> False)"

definition match_number :: "string \<Rightarrow> (int \<times> string) option" where
  "match_number s =
     (let neg = (s \<noteq> [] \<and> hd s = CHR ''-'');
          s1 = (if neg then tl s else s)
      in case s1 of
           [] \<Rightarrow> None
         | d # r \<Rightarrow>
             if \<not> is_digit d then None
             else
               let ds = (if d = CHR ''0'' then [] else takeWhile is_digit r);
                   r' = drop (length ds) r;
                   n = int (digits_val (d # ds))
               in if float_follows r' then None
                  else Some (if neg then - n else n, r'))"

text \<open>\<open>dict(pairs)\<close>: a repeated key keeps its first position and takes the last value.\<close>

fun dict_set :: "(string \<times> json) list \<Rightarrow> string \<times> json \<Rightarrow> (string \<times> json) list" where
  "dict_set [] kv = [kv]"
| "dict_set (p # d) kv = (if fst p = fst kv then (fst p, snd kv) # d else p # dict_set d kv)"

definition dict :: "(string \<times> json) list \<Rightarrow> (string \<times> json) list" where
  "dict pairs = foldl dict_set [] pairs"

text \<open>
  \<open>scan_once\<close>, \<open>JSONArray\<close> and \<open>JSONObject\<close>. The first argument bounds the number of
  nested calls; \<open>json_loads\<close> starts with the length of the text, which is enough for
  every text \<open>json_dumps\<close> writes (lemma \<open>scan_once_json_dumps\<close> below).
\<close>

fun scan_once :: "nat \<Rightarrow> string \<Rightarrow> (json \<times> string) option"
  and JSONArray :: "nat \<Rightarrow> string \<Rightarrow> (json list \<times> string) option"
  and JSONObject :: "nat \<Rightarrow> string \<Rightarrow> ((string \<times> json) list \<times> string) option"
where
  "scan_once 0 s = None"
| "scan_once (Suc n) s =
     (case s of
        [] \<Rightarrow> None
      | nextchar # r \<Rightarrow>
          if nextchar = CHR 0x22 then
            (case scanstring r of
               None \<Rightarrow> None
             | Some (str, rest) \<Rightarrow> Some (JStr str, rest))
          else if nextchar = CHR ''{'' then
            (case skip_ws r of
               [] \<Rightarrow> None
             | c # r' \<Rightarrow>
                 if c = CHR ''}'' then Some (JObj [], r')
                 else (case JSONObject n (c # r') of
                         None \<Rightarrow> None
                       | Some (pairs, rest) \<Rightarrow> Some (JObj (dict pairs), rest)))
          else if nextchar = CHR ''['' then
            (case skip_ws r of
               [] \<Rightarrow> None
             | c # r' \<Rightarrow>
                 if c = CHR '']'' then Some (JList [], r')
                 else (case JSONArray n (c # r') of
                         None \<Rightarrow> None
                       | Some (values, rest) \<Rightarrow> Some (JList values, rest)))
          else if take 4 s = ''null'' then Some (JNull, drop 4 s)
          else if take 4 s = ''true'' then Some (JBool True, drop 4 s)
          else if take 5 s = ''false'' then Some (JBool False, drop 5 s)
          else (case match_number s of
                  None \<Rightarrow> None
                | Some (i, rest) \<Rightarrow> Some (JInt i, rest)))"
| "JSONArray 0 s = None"
| "JSONArray (Suc n) s =
     (case scan_once n s of
        None \<Rightarrow> None
      | Some (val, r) \<Rightarrow>
          (case skip_ws r of
             [] \<Rightarrow> None
           | nextchar # r' \<Rightarrow>
               if nextchar = CHR '']'' then Some ([val], r')
               else if nextchar \<noteq> CHR '','' then None
               else (case JSONArray n (skip_ws r') of
                       None \<Rightarrow> None
                     | Some (values, rest) \<Rightarrow> Some (val # values, rest))))"
| "JSONObject 0 s = None"
| "JSONObject (Suc n) s =
     (case s of
        [] \<Rightarrow> None
      | q # r \<Rightarrow>
          if q \<noteq> CHR 0x22 then None
          else
            (case scanstring r of
               None \<Rightarrow> None
             | Some (key, r1) \<Rightarrow>
                 (case skip_ws r1 of
                    [] \<Rightarrow> None
                  | colon # r2 \<Rightarrow>
                      if colon \<noteq> CHR '':'' then None
                      else
                        (case scan_once n (skip_ws r2) of
                           None \<Rightarrow> None
                         | Some (val, r3) \<Rightarrow>
                             (case skip_ws r3 of
                                [] \<Rightarrow> None
                              | nextchar # r4 \<Rightarrow>
                                  if nextchar = CHR ''}'' then Some ([(key, val)], r4)
                                  else if nextchar \<noteq> CHR '','' then None
                                  else (case JSONObject n (skip_ws r4) of
                                          None \<Rightarrow> None
                                        | Some (pairs, rest) \<Rightarrow>
                                            Some ((key, val) # pairs, rest)))))))"

definition json_loads :: "string \<Rightarrow> error + json" where
  "json_loads s =
     (case scan_once (length s) (skip_ws s) of
        None \<Rightarrow> Inl JSONDecodeError
      | Some (obj, rest) \<Rightarrow> if skip_ws rest \<noteq> [] then Inl JSONDecodeError else Inr obj)"

section \<open>The global state and the endpoints of \<open>app/main.py\<close>\<close>

text \<open>
  The globals \<open>chains\<close> and \<open>participants\<close>, and the contents of the two files that
  \<open>save_chain\<close> and \<open>save_participants\<close> write (\<open>None\<close>: no file yet). The members of
  \<open>chains\<close> are the dictionaries \<open>ChainProposal.dict()\<close> builds; they are kept as records
  and turned into dictionaries where the code serialises them.
\<close>

record state =
  chains :: "ChainProposal list"
  participants :: "(string \<times> string) set"
  chain_file :: "ChainProposal list option"
  participants_file :: "(string \<times> string) set option"

definition save_chain :: "state \<Rightarrow> state" where
  "save_chain st = st\<lparr>chain_file := Some (chains st)\<rparr>"

definition save_participants :: "state \<Rightarrow> state" where
  "save_participants st = st\<lparr>participants_file := Some (participants st)\<rparr>"

text \<open>
  \<open>collections.Counter(xs)\<close>: a dictionary from element to count, in the order of first
  occurrence.
\<close>

fun counter_add :: "('a \<times> nat) list \<Rightarrow> 'a \<Rightarrow> ('a \<times> nat) list" where
  "counter_add [] x = [(x, 1)]"
| "counter_add (p # c) x = (if fst p = x then (fst p, Suc (snd p)) # c else p # counter_add c x)"

definition Counter :: "'a list \<Rightarrow> ('a \<times> nat) list" where
  "Counter xs = foldl counter_add [] xs"

text \<open>
  \<open>Counter.most_common(1)\<close> is \<open>heapq.nlargest(1, items, key=itemgetter(1))\<close>, which for
  \<open>n = 1\<close> is \<open>max(items, key=...)\<close>: the first item, in iteration order, whose count no
  other item exceeds; the empty list for an empty counter.
\<close>

fun max_count :: "('a \<times> nat) \<Rightarrow> ('a \<times> nat) list \<Rightarrow> ('a \<times> nat)" where
  "max_count best [] = best"
| "max_count best (item # items) = max_count (if snd best < snd item then item else best) items"

definition most_common1 :: "('a \<times> nat) list \<Rightarrow> ('a \<times> nat) list" where
  "most_common1 c = (case c of [] \<Rightarrow> [] | item # items \<Rightarrow> [max_count item items])"

definition get_majority_chain :: "state \<Rightarrow> error + json" where
  "get_majority_chain st =
     (if chains st = [] then Inr (JObj [])
      else
        let chains_str = map (\<lambda>chain. json_dumps (proposal_dict chain)) (chains st) in
        case most_common1 (Counter chains_str) of
          [] \<Rightarrow> Inl IndexError
        | most_common # _ \<Rightarrow> json_loads (fst most_common))"

text \<open>
  An endpoint returns its response, or the exception it raised, together with the state
  it leaves behind.
\<close>

definition share_latest_chain :: "ChainProposal \<Rightarrow> state \<Rightarrow> (error + json) \<times> state" where
  "share_latest_chain proposal st =
     (if \<not> is_chain_valid (blocks proposal) then (Inl (HTTPException 400 ''Invalid chain''), st)
      else
        let st1 = st\<lparr>chains := chains st @ [proposal]\<rparr> in
        case get_majority_chain st1 of
          Inl e \<Rightarrow> (Inl e, st1)
        | Inr latest_chain \<Rightarrow>
            (Inr (JObj [(''status'', JStr ''success''), (''latest_chain'', latest_chain)]),
             save_chain st1))"

definition get_latest_chain :: "state \<Rightarrow> error + json" where
  "get_latest_chain st =
     (if chains st = [] then Inr (JObj [(''status'', JStr ''success''), (''latest_chain'', JObj [])])
      else case get_majority_chain st of
             Inl e \<Rightarrow> Inl e
           | Inr latest_chain \<Rightarrow>
               Inr (JObj [(''status'', JStr ''success''), (''latest_chain'', latest_chain)]))"

text \<open>
  \<open>create_genesis\<close>; the three arguments are the three readings of
  \<open>datetime.now(timezone.utc).isoformat()\<close>, in the order of the calls.
\<close>

definition genesis_block :: "string \<Rightarrow> string \<Rightarrow> Block" where
  "genesis_block now1 now2 =
     \<lparr>index = 1,
      previousHash = ''0'',
      timestamp = now1,
      message =
        \<lparr>sender = \<lparr>ipAddress = ''0.0.0.0'', uuid = ''00000000-0000-0000-0000-000000000000''\<rparr>,
         recipient = \<lparr>ipAddress = ''0.0.0.0'', uuid = ''00000000-0000-0000-0000-000000000000''\<rparr>,
         content = ''Genesis block'',
         timestamp = now2\<rparr>,
      proof = 0,
      hash = ''0''\<rparr>"

definition new_chain :: "Block \<Rightarrow> string \<Rightarrow> ChainProposal" where
  "new_chain b now =
     \<lparr>blocks = [b],
      network = JObj [(''nodes'', JList []), (''version'', JStr ''1.0.0''), (''lastUpdated'', JStr now)],
      status = JObj [(''isValid'', JBool True), (''error'', JNull)]\<rparr>"

definition create_genesis :: "string \<Rightarrow> string \<Rightarrow> string \<Rightarrow> state \<Rightarrow> (error + json) \<times> state" where
  "create_genesis now1 now2 now3 st =
     (if chains st \<noteq> [] \<or> participants st \<noteq> {} then
        (Inl (HTTPException 400 ''Blockchain or participants already initialized''), st)
      else
        let initial_chain = new_chain (genesis_block now1 now2) now3;
            st1 = st\<lparr>chains := chains st @ [initial_chain]\<rparr>
        in (Inr (JObj [(''status'', JStr ''success''),
                       (''message'', JStr ''Genesis block created and blockchain initialized'')]),
            save_participants (save_chain st1)))"

text \<open>
  \<open>send_message\<close>; \<open>now1\<close> and \<open>now2\<close> are the clock readings for the block and for
  \<open>lastUpdated\<close>. The first test of the source, \<open>not (message.sender and message.recipient)\<close>,
  never holds: both are model instances, which are truthy. \<open>chains[-1]['blocks'][-1]\<close>
  raises IndexError on an empty block list.
\<close>

definition send_message :: "string \<Rightarrow> string \<Rightarrow> Message \<Rightarrow> state \<Rightarrow> (error + json) \<times> state" where
  "send_message now1 now2 msg st =
     (let sender_id = (ipAddress (sender msg), uuid (sender msg));
          receiver_id = (ipAddress (recipient msg), uuid (recipient msg))
      in
      if sender_id \<notin> participants st \<or> receiver_id \<notin> participants st then
        (Inl (HTTPException 400 ''Sender or recipient is not a registered participant''), st)
      else if chains st \<noteq> [] \<and> blocks (last (chains st)) = [] then (Inl IndexError, st)
      else
        let previous_block =
              (if chains st \<noteq> [] then Some (last (blocks (last (chains st)))) else None);
            new_index = (case previous_block of Some pb \<Rightarrow> index pb + 1 | None \<Rightarrow> 1);
            new_block =
              \<lparr>index = new_index,
               previousHash = (case previous_block of Some pb \<Rightarrow> calculate_hash pb | None \<Rightarrow> ''0''),
               timestamp = now1,
               message = msg,
               proof = 0,
               hash = []\<rparr>;
            new_block = new_block\<lparr>hash := calculate_hash new_block\<rparr>;
            st1 =
              (if chains st \<noteq> [] then
                 st\<lparr>chains := butlast (chains st) @
                   [(last (chains st))\<lparr>blocks := blocks (last (chains st)) @ [new_block]\<rparr>]\<rparr>
               else st\<lparr>chains := chains st @ [new_chain new_block now2]\<rparr>)
        in (Inr (JObj [(''status'', JStr ''success''),
                       (''message'', JStr ''Message added to blockchain'')]),
            save_chain st1))"

text \<open>
  \<open>register_participant\<close>. The HTTPException raised for a registered participant is caught
  by the handler's own \<open>except Exception\<close> and returned as an error response whose message
  is \<open>str(e)\<close>, here the text Starlette gives (status code, colon, detail).
\<close>

definition register_participant :: "MessageSender \<Rightarrow> state \<Rightarrow> (error + json) \<times> state" where
  "register_participant participant st =
     (let participant_tuple = (ipAddress participant, uuid participant) in
      if participant_tuple \<in> participants st then
        (Inr (JObj [(''status'', JStr ''error''),
                    (''message'', JStr ''400: Participant already registered'')]), st)
      else
        (Inr (JObj [(''status'', JStr ''success''),
                    (''message'', JStr ''Participant registered successfully'')]),
         save_participants (st\<lparr>participants := insert participant_tuple (participants st)\<rparr>)))"

section \<open>Vocabulary of the properties\<close>

text \<open>
  The block \<open>send_message\<close> builds on top of the block list \<open>prior\<close> (empty when there is
  no chain yet): \<open>seal\<close> is the assignment \<open>new_block.hash = calculate_hash(new_block)\<close>.
\<close>

definition seal :: "Block \<Rightarrow> Block" where
  "seal b = b\<lparr>hash := calculate_hash b\<rparr>"

definition new_block_of :: "string \<Rightarrow> Message \<Rightarrow> Block list \<Rightarrow> Block" where
  "new_block_of now1 msg prior =
     seal \<lparr>index = (if prior = [] then 1 else index (last prior) + 1),
           previousHash = (if prior = [] then ''0'' else calculate_hash (last prior)),
           timestamp = now1, message = msg, proof = 0, hash = []\<rparr>"

text \<open>
  A run of the append engine: calls of \<open>send_message\<close>, with the registrations that let
  its participant check pass. A call that raises leaves the state it had reached.
\<close>

datatype op = SendMessage string string Message | RegisterParticipant MessageSender

fun apply_op :: "op \<Rightarrow> state \<Rightarrow> state" where
  "apply_op (SendMessage now1 now2 msg) st = snd (send_message now1 now2 msg st)"
| "apply_op (RegisterParticipant p) st = snd (register_participant p st)"

definition apply_ops :: "op list \<Rightarrow> state \<Rightarrow> state" where
  "apply_ops ops st = foldl (\<lambda>s x. apply_op x s) st ops"

text \<open>What every state of such a run after \<open>create_genesis\<close> keeps.\<close>

definition genesis_inv :: "state \<Rightarrow> bool" where
  "genesis_inv st \<longleftrightarrow>
     length (chains st) = 1 \<and> blocks (last (chains st)) \<noteq> []
     \<and> hash (blocks (last (chains st)) ! 0) = ''0''"

subsection \<open>Serialisation and votes\<close>

text \<open>
  What \<open>json.loads(json.dumps(v, sort_keys=True))\<close> gives back: \<open>v\<close> with the keys of every
  dictionary in sorted order. As Python dictionaries, which compare without regard to key
  order, \<open>sort_keys v\<close> and \<open>v\<close> are equal.
\<close>

fun sort_keys :: "json \<Rightarrow> json" where
  "sort_keys (JList xs) = JList (map sort_keys xs)"
| "sort_keys (JObj kvs) = JObj (map (\<lambda>kv. (fst kv, sort_keys (snd kv))) (sort_key fst kvs))"
| "sort_keys v = v"

text \<open>A Python dictionary has no repeated key.\<close>

fun wf_json :: "json \<Rightarrow> bool" where
  "wf_json (JList xs) = list_all wf_json xs"
| "wf_json (JObj kvs) = (distinct (map fst kvs) \<and> list_all (\<lambda>kv. wf_json (snd kv)) kvs)"
| "wf_json v = True"

text \<open>One \<open>key: value\<close> item of a serialised dictionary.\<close>

definition dumps_item :: "string \<times> json \<Rightarrow> string" where
  "dumps_item kv = encode_basestring_ascii (fst kv) @ '': '' @ json_dumps (snd kv)"

text \<open>
  What may follow a serialised value (nothing, a comma or a closing bracket), and what a
  serialised value may start with.
\<close>

definition value_end :: "string \<Rightarrow> bool" where
  "value_end rest \<longleftrightarrow> rest = [] \<or> hd rest = CHR '','' \<or> hd rest = CHR '']'' \<or> hd rest = CHR ''}''"

definition value_start :: "char \<Rightarrow> bool" where
  "value_start c \<longleftrightarrow> \<not> is_ws c \<and> c \<noteq> CHR '']''"

text \<open>
  The number of stored proposals with the same canonical serialisation as \<open>c\<close>, and the
  count a \<open>Counter\<close> holds for a key.
\<close>

definition votes :: "ChainProposal list \<Rightarrow> ChainProposal \<Rightarrow> nat" where
  "votes cs c =
     count_list (map (\<lambda>chain. json_dumps (proposal_dict chain)) cs) (json_dumps (proposal_dict c))"

definition count_of :: "('a \<times> nat) list \<Rightarrow> 'a \<Rightarrow> nat" where
  "count_of c x = (case map_of c x of None \<Rightarrow> 0 | Some n \<Rightarrow> n)"

text \<open>A text between double quotes.\<close>

definition quoted :: "string \<Rightarrow> string" where
  "quoted s = CHR 0x22 # s @ [CHR 0x22]"

subsection \<open>Example data\<close>

definition empty_state :: state where
  "empty_state = \<lparr>chains = [], participants = {}, chain_file = None, participants_file = None\<rparr>"

definition alice :: MessageSender where
  "alice = \<lparr>ipAddress = ''10.0.0.1'', uuid = ''a1''\<rparr>"

definition bob :: MessageSender where
  "bob = \<lparr>ipAddress = ''10.0.0.2'', uuid = ''b2''\<rparr>"

definition mallory :: MessageSender where
  "mallory = \<lparr>ipAddress = ''10.6.6.6'', uuid = ''m0''\<rparr>"

definition hello :: Message where
  "hello = \<lparr>sender = alice, recipient = bob, content = ''hello'',
            timestamp = ''2024-01-01T00:00:00+00:00''\<rparr>"

definition intrusion :: Message where
  "intrusion = \<lparr>sender = mallory, recipient = bob, content = ''hi'',
                timestamp = ''2024-01-01T00:00:00+00:00''\<rparr>"

definition first_block :: Block where
  "first_block =
     seal \<lparr>index = 1, previousHash = ''0'', timestamp = ''2024-01-01T00:00:01+00:00'',
           message = hello, proof = 0, hash = []\<rparr>"

definition gap_block :: Block where
  "gap_block =
     seal \<lparr>index = 7, previousHash = calculate_hash first_block,
           timestamp = ''2024-01-01T00:00:02+00:00'', message = hello, proof = 0, hash = []\<rparr>"

definition registered :: state where
  "registered =
     \<lparr>chains = [], participants = {(''10.0.0.1'', ''a1''), (''10.0.0.2'', ''b2'')},
      chain_file = None, participants_file = None\<rparr>"

definition one_ledger :: state where
  "one_ledger = registered\<lparr>chains := [new_chain first_block ''2024-01-01T00:00:01+00:00'']\<rparr>"

text \<open>Two proposals: a one-block ledger, and a ledger one block longer.\<close>

definition chain_a :: ChainProposal where
  "chain_a = new_chain first_block ''2024-01-01T00:00:01+00:00''"

definition chain_b :: ChainProposal where
  "chain_b = (new_chain first_block ''2024-01-01T00:00:03+00:00'')\<lparr>blocks := [first_block, gap_block]\<rparr>"

section \<open>The canonical hasher\<close>

lemma calculate_hash_hash_update [simp]: "calculate_hash (b\<lparr>hash := h\<rparr>) = calculate_hash b"
  by (simp add: calculate_hash_def)

lemma calculate_hash_seal [simp]: "calculate_hash (seal b) = calculate_hash b"
  by (simp add: seal_def)

lemma seal_fields [simp]:
  "index (seal b) = index b" "previousHash (seal b) = previousHash b"
  "Block.timestamp (seal b) = Block.timestamp b" "message (seal b) = message b"
  "proof (seal b) = proof b" "hash (seal b) = calculate_hash b"
  by (simp_all add: seal_def)

lemma length_hex32: "length (hex32 w) = 8"
  by (simp add: hex32_def)

lemma length_hexdigest: "length (hexdigest st) = 64"
  by (simp add: hexdigest_def length_hex32 split: prod.splits)

lemma length_calculate_hash: "length (calculate_hash b) = 64"
  by (simp add: calculate_hash_def Let_def length_hexdigest)

lemma calculate_hash_not_0: "calculate_hash b \<noteq> ''0''"
proof
  assume "calculate_hash b = ''0''"
  then have "length (calculate_hash b) = length ''0''" by simp
  then show False by (simp add: length_calculate_hash)
qed

subsection \<open>Test vectors\<close>

text \<open>
  The model of \<open>hashlib.sha256\<close> on the one-block test vector of FIPS 180-4, and the model
  of \<open>json.dumps\<close> on a list and on a dictionary whose keys are not in sorted order.
\<close>

lemma sha256_abc:
  "hexdigest (sha256 (encode ''abc'')) =
     ''ba7816bf8f01cfea414140de5dae2223b00361a396177a9cb410ff61f20015ad''"
  by code_simp

lemma json_dumps_list:
  "json_dumps (JList [JInt (- 12), JInt 0, JNull, JBool True, JList [], JObj []]) =
     ''[-12, 0, null, true, [], {}]''"
  by code_simp

lemma json_dumps_dict:
  "json_dumps (JObj [(''b'', JInt 1), (''a'', JStr ''x'')]) =
     ''{'' @ quoted ''a'' @ '': '' @ quoted ''x'' @ '', '' @ quoted ''b'' @ '': 1}''"
  by code_simp

text \<open>
  Claim C7. The digest is a function of the five hashed fields alone: two blocks that agree
  on index, previousHash, timestamp, message and proof get the same digest, whatever their
  stored hash fields are (and, \<open>calculate_hash\<close> being a function of the block, equal blocks
  get equal digests on every call).
\<close>

theorem calculate_hash_five_fields:
  "index a = index b \<Longrightarrow> previousHash a = previousHash b \<Longrightarrow>
   Block.timestamp a = Block.timestamp b \<Longrightarrow> message a = message b \<Longrightarrow> proof a = proof b \<Longrightarrow>
   calculate_hash a = calculate_hash b"
  by (simp add: calculate_hash_def)

theorem calculate_hash_five_fields_witness:
  "hash (first_block\<lparr>hash := ''tampered''\<rparr>) = ''tampered''
   \<and> hash first_block \<noteq> ''tampered''
   \<and> calculate_hash (first_block\<lparr>hash := ''tampered''\<rparr>) = calculate_hash first_block"
proof -
  have "hash first_block \<noteq> ''tampered''"
    using length_calculate_hash[of first_block] by (auto simp: first_block_def)
  then show ?thesis
    using calculate_hash_five_fields[of "first_block\<lparr>hash := ''tampered''\<rparr>" first_block]
    by simp
qed

section \<open>The chain validator\<close>

lemma valid_from_iff:
  "valid_from i bs \<longleftrightarrow>
     (\<forall>j. i \<le> j \<and> j < length bs \<longrightarrow>
        previousHash (bs ! j) = calculate_hash (bs ! (j - 1))
        \<and> hash (bs ! j) = calculate_hash (bs ! j))"
proof (induction i bs rule: valid_from.induct)
  case (1 i bs)
  show ?case
  proof (cases "i < length bs")
    case False
    then show ?thesis by (subst valid_from.simps) auto
  next
    case True
    show ?thesis
    proof (cases "previousHash (bs ! i) = calculate_hash (bs ! (i - 1))
                  \<and> hash (bs ! i) = calculate_hash (bs ! i)")
      case False
      with True show ?thesis by (subst valid_from.simps) (auto simp: Let_def)
    next
      case ok: True
      have "valid_from i bs = valid_from (Suc i) bs"
        using True ok by (subst valid_from.simps) (simp add: Let_def)
      also have "\<dots> \<longleftrightarrow> (\<forall>j. Suc i \<le> j \<and> j < length bs \<longrightarrow>
        previousHash (bs ! j) = calculate_hash (bs ! (j - 1))
        \<and> hash (bs ! j) = calculate_hash (bs ! j))"
        using "1.IH" True ok by simp
      also have "\<dots> \<longleftrightarrow> (\<forall>j. i \<le> j \<and> j < length bs \<longrightarrow>
        previousHash (bs ! j) = calculate_hash (bs ! (j - 1))
        \<and> hash (bs ! j) = calculate_hash (bs ! j))"
        using ok by (metis Suc_leI le_neq_implies_less Suc_leD)
      finally show ?thesis .
    qed
  qed
qed

lemma is_chain_valid_conv:
  "is_chain_valid bs \<longleftrightarrow>
      bs \<noteq> [] \<and> index (bs ! 0) = 1 \<and> previousHash (bs ! 0) = ''0''
      \<and> hash (bs ! 0) = calculate_hash (bs ! 0)
      \<and> (\<forall>i. 1 \<le> i \<and> i < length bs \<longrightarrow>
            previousHash (bs ! i) = calculate_hash (bs ! (i - 1))
            \<and> hash (bs ! i) = calculate_hash (bs ! i))"
  by (auto simp: is_chain_valid_def valid_from_iff)

lemma is_chain_valid_single:
  "is_chain_valid [b] \<longleftrightarrow> index b = 1 \<and> previousHash b = ''0'' \<and> hash b = calculate_hash b"
  by (auto simp: is_chain_valid_conv)

lemma is_chain_valid_snoc:
  assumes "is_chain_valid bs" "previousHash b = calculate_hash (last bs)" "hash b = calculate_hash b"
  shows "is_chain_valid (bs @ [b])"
proof -
  from assms(1) have ne: "bs \<noteq> []" by (simp add: is_chain_valid_conv)
  have old: "\<And>i. 1 \<le> i \<Longrightarrow> i < length bs \<Longrightarrow>
      previousHash (bs ! i) = calculate_hash (bs ! (i - 1)) \<and> hash (bs ! i) = calculate_hash (bs ! i)"
    using assms(1) by (simp add: is_chain_valid_conv)
  have "previousHash ((bs @ [b]) ! i) = calculate_hash ((bs @ [b]) ! (i - 1))
        \<and> hash ((bs @ [b]) ! i) = calculate_hash ((bs @ [b]) ! i)"
    if "1 \<le> i" "i < length (bs @ [b])" for i
  proof (cases "i < length bs")
    case True
    then have "i - 1 < length bs" by simp
    with True old[OF that(1) True] show ?thesis by (simp add: nth_append)
  next
    case False
    with that have i: "i = length bs" by simp
    have "(bs @ [b]) ! (i - 1) = last bs"
      using ne i by (simp add: nth_append last_conv_nth)
    with i assms(2,3) show ?thesis by simp
  qed
  moreover have "(bs @ [b]) ! 0 = bs ! 0" using ne by (simp add: nth_append)
  ultimately show ?thesis
    using assms(1) ne unfolding is_chain_valid_conv[of "bs @ [b]"]
    by (simp add: is_chain_valid_conv[of bs])
qed

lemma is_chain_valid_hash_0: "bs \<noteq> [] \<Longrightarrow> hash (bs ! 0) = ''0'' \<Longrightarrow> \<not> is_chain_valid bs"
  using calculate_hash_not_0[of "bs ! 0"] by (auto simp: is_chain_valid_conv)

lemma first_block_valid: "is_chain_valid [first_block]"
  by (simp add: is_chain_valid_single first_block_def)

lemma gap_chain_valid: "is_chain_valid [first_block, gap_block]"
proof -
  have "is_chain_valid ([first_block] @ [gap_block])"
    using first_block_valid by (rule is_chain_valid_snoc) (simp_all add: gap_block_def)
  then show ?thesis by simp
qed

text \<open>
  Claim C2. \<open>is_chain_valid\<close> accepts a block list exactly when it is non-empty, its first
  block has index 1, previousHash "0" and a stored hash equal to its recomputed digest, and
  every later block's previousHash is the recomputed digest of the block before it and its
  hash is its own recomputed digest. In particular the empty list is rejected, and so is a
  list whose first block has another index or another previousHash.
\<close>

theorem is_chain_valid_iff:
  "(is_chain_valid bs \<longleftrightarrow>
      bs \<noteq> [] \<and> index (bs ! 0) = 1 \<and> previousHash (bs ! 0) = ''0''
      \<and> hash (bs ! 0) = calculate_hash (bs ! 0)
      \<and> (\<forall>i. 1 \<le> i \<and> i < length bs \<longrightarrow>
            previousHash (bs ! i) = calculate_hash (bs ! (i - 1))
            \<and> hash (bs ! i) = calculate_hash (bs ! i)))
   \<and> \<not> is_chain_valid []
   \<and> (index (bs ! 0) \<noteq> 1 \<or> previousHash (bs ! 0) \<noteq> ''0'' \<longrightarrow> \<not> is_chain_valid bs)"
  by (auto simp: is_chain_valid_def valid_from_iff)

theorem is_chain_valid_iff_witness:
  "is_chain_valid [first_block, gap_block]
   \<and> previousHash ([first_block, gap_block] ! 1) = calculate_hash ([first_block, gap_block] ! 0)
   \<and> index ([gap_block, first_block] ! 0) = 7
   \<and> \<not> is_chain_valid [gap_block, first_block]"
  using is_chain_valid_iff[of "[first_block, gap_block]"] is_chain_valid_iff[of "[gap_block, first_block]"]
    gap_chain_valid
  by (simp add: gap_block_def)

text \<open>
  Claim C6. The validator does not check that indices go up by one: some block list is
  accepted, with first index 1 and every digest check passing, although one of its blocks
  has an index other than its predecessor's plus 1 (here 1 followed by 7).
\<close>

theorem validator_skips_index_check:
  "\<exists>bs. is_chain_valid bs \<and> index (bs ! 0) = 1
      \<and> (\<exists>i. 1 \<le> i \<and> i < length bs \<and> index (bs ! i) \<noteq> index (bs ! (i - 1)) + 1)"
proof (intro exI conjI)
  show "is_chain_valid [first_block, gap_block]" by (rule gap_chain_valid)
  show "index ([first_block, gap_block] ! 0) = 1" by (simp add: first_block_def)
  show "(1::nat) \<le> 1" by simp
  show "1 < length [first_block, gap_block]" by simp
  show "index ([first_block, gap_block] ! 1) \<noteq> index ([first_block, gap_block] ! (1 - 1)) + 1"
    by (simp add: first_block_def gap_block_def)
qed

theorem validator_skips_index_check_witness:
  "index first_block = 1 \<and> index gap_block = 7
   \<and> (\<exists>bs. is_chain_valid bs \<and> index (bs ! 0) = 1
        \<and> (\<exists>i. 1 \<le> i \<and> i < length bs \<and> index (bs ! i) \<noteq> index (bs ! (i - 1)) + 1))"
  using validator_skips_index_check by (simp add: first_block_def gap_block_def)

section \<open>The append engine\<close>

lemma send_message_rejected:
  "(ipAddress (sender msg), uuid (sender msg)) \<notin> participants st
     \<or> (ipAddress (recipient msg), uuid (recipient msg)) \<notin> participants st \<Longrightarrow>
   send_message now1 now2 msg st =
     (Inl (HTTPException 400 ''Sender or recipient is not a registered participant''), st)"
  by (auto simp: send_message_def Let_def)

lemma send_message_first:
  assumes "(ipAddress (sender msg), uuid (sender msg)) \<in> participants st"
      and "(ipAddress (recipient msg), uuid (recipient msg)) \<in> participants st"
      and "chains st = []"
  shows "send_message now1 now2 msg st =
     (Inr (JObj [(''status'', JStr ''success''), (''message'', JStr ''Message added to blockchain'')]),
      save_chain (st\<lparr>chains := [new_chain (new_block_of now1 msg []) now2]\<rparr>))"
  using assms by (simp add: send_message_def Let_def new_block_of_def seal_def)

lemma send_message_next:
  assumes "(ipAddress (sender msg), uuid (sender msg)) \<in> participants st"
      and "(ipAddress (recipient msg), uuid (recipient msg)) \<in> participants st"
      and "chains st \<noteq> []" "blocks (last (chains st)) \<noteq> []"
  shows "send_message now1 now2 msg st =
     (Inr (JObj [(''status'', JStr ''success''), (''message'', JStr ''Message added to blockchain'')]),
      save_chain (st\<lparr>chains := butlast (chains st) @
         [(last (chains st))\<lparr>blocks := blocks (last (chains st)) @
            [new_block_of now1 msg (blocks (last (chains st)))]\<rparr>]\<rparr>))"
  using assms by (simp add: send_message_def Let_def new_block_of_def seal_def)

lemma new_block_of_fields:
  "index (new_block_of now1 msg prior) = (if prior = [] then 1 else index (last prior) + 1)"
  "previousHash (new_block_of now1 msg prior) =
     (if prior = [] then ''0'' else calculate_hash (last prior))"
  "proof (new_block_of now1 msg prior) = 0"
  "message (new_block_of now1 msg prior) = msg"
  "hash (new_block_of now1 msg prior) = calculate_hash (new_block_of now1 msg prior)"
  by (simp_all add: new_block_of_def)

lemma registered_hello:
  "(ipAddress (sender hello), uuid (sender hello)) \<in> participants registered"
  "(ipAddress (recipient hello), uuid (recipient hello)) \<in> participants registered"
  "(ipAddress (sender hello), uuid (sender hello)) \<in> participants one_ledger"
  "(ipAddress (recipient hello), uuid (recipient hello)) \<in> participants one_ledger"
  by (simp_all add: hello_def alice_def bob_def registered_def one_ledger_def)

text \<open>
  Claim C3. When sender and recipient are registered (and the last chain, if there is one,
  has a block), \<open>send_message\<close> succeeds and the block list of the last chain is the prior
  one plus exactly one new block \<open>b\<close>: its index is the prior tail's index plus 1 (1 when
  there was no chain), its previousHash the recomputed digest of the prior tail ("0" when
  none), its proof 0 and its stored hash its own recomputed digest; the other chains are
  untouched; and if \<open>is_chain_valid\<close> accepted the prior block list it accepts the new one.
\<close>

theorem send_message_append:
  assumes "(ipAddress (sender msg), uuid (sender msg)) \<in> participants st"
      and "(ipAddress (recipient msg), uuid (recipient msg)) \<in> participants st"
      and "chains st \<noteq> [] \<longrightarrow> blocks (last (chains st)) \<noteq> []"
      and "prior = (if chains st = [] then [] else blocks (last (chains st)))"
      and "st' = snd (send_message now1 now2 msg st)"
  shows "\<exists>b. fst (send_message now1 now2 msg st) =
            Inr (JObj [(''status'', JStr ''success''), (''message'', JStr ''Message added to blockchain'')])
          \<and> chains st' \<noteq> [] \<and> butlast (chains st') = butlast (chains st)
          \<and> blocks (last (chains st')) = prior @ [b]
          \<and> index b = (if prior = [] then 1 else index (last prior) + 1)
          \<and> previousHash b = (if prior = [] then ''0'' else calculate_hash (last prior))
          \<and> proof b = 0 \<and> message b = msg \<and> hash b = calculate_hash b
          \<and> length (blocks (last (chains st'))) = length prior + 1
          \<and> (is_chain_valid prior \<longrightarrow> is_chain_valid (blocks (last (chains st'))))"
proof (cases "chains st = []")
  case True
  then have p: "prior = []" using assms(4) by simp
  have st': "st' = save_chain (st\<lparr>chains := [new_chain (new_block_of now1 msg []) now2]\<rparr>)"
    using send_message_first[OF assms(1,2) True] assms(5) by simp
  show ?thesis
    apply (rule exI[of _ "new_block_of now1 msg []"])
    using send_message_first[OF assms(1,2) True, of now1 now2] p st'
    by (simp add: new_block_of_fields save_chain_def new_chain_def True is_chain_valid_conv)
next
  case False
  then have ne: "blocks (last (chains st)) \<noteq> []" using assms(3) by simp
  have p: "prior = blocks (last (chains st))" using assms(4) False by simp
  then have pne: "prior \<noteq> []" using ne by simp
  let ?b = "new_block_of now1 msg prior"
  have st': "st' = save_chain (st\<lparr>chains := butlast (chains st) @
         [(last (chains st))\<lparr>blocks := prior @ [?b]\<rparr>]\<rparr>)"
    using send_message_next[OF assms(1,2) False ne] assms(5) p by simp
  have v: "is_chain_valid prior \<Longrightarrow> is_chain_valid (prior @ [?b])"
    by (rule is_chain_valid_snoc) (simp_all add: new_block_of_fields pne)
  show ?thesis
    apply (rule exI[of _ ?b])
    using send_message_next[OF assms(1,2) False ne, of now1 now2] st' pne v
    by (simp add: new_block_of_fields save_chain_def)
qed

theorem send_message_append_witness:
  "is_chain_valid [first_block]
   \<and> (\<exists>b. blocks (last (chains (snd (send_message ''t1'' ''t2'' hello one_ledger)))) = [first_block, b]
         \<and> index b = 2 \<and> previousHash b = calculate_hash first_block \<and> proof b = 0
         \<and> hash b = calculate_hash b
         \<and> is_chain_valid (blocks (last (chains (snd (send_message ''t1'' ''t2'' hello one_ledger))))))"
proof -
  have c: "chains one_ledger = [new_chain first_block ''2024-01-01T00:00:01+00:00'']"
    by (simp add: one_ledger_def)
  have pre3: "chains one_ledger \<noteq> [] \<longrightarrow> blocks (last (chains one_ledger)) \<noteq> []"
    by (simp add: c new_chain_def)
  have pre4: "[first_block] =
      (if chains one_ledger = [] then [] else blocks (last (chains one_ledger)))"
    by (simp add: c new_chain_def)
  have i: "index first_block = 1"
    by (simp add: first_block_def)
  obtain b where
    "blocks (last (chains (snd (send_message ''t1'' ''t2'' hello one_ledger)))) = [first_block] @ [b]"
    "index b = (if [first_block] = [] then 1 else index (last [first_block]) + 1)"
    "previousHash b = (if [first_block] = [] then ''0'' else calculate_hash (last [first_block]))"
    "proof b = 0" "hash b = calculate_hash b"
    "is_chain_valid [first_block] \<longrightarrow>
       is_chain_valid (blocks (last (chains (snd (send_message ''t1'' ''t2'' hello one_ledger)))))"
    using send_message_append[OF registered_hello(3,4) pre3 pre4 refl, of "''t1''" "''t2''"]
    by blast
  then have "blocks (last (chains (snd (send_message ''t1'' ''t2'' hello one_ledger)))) = [first_block, b]
         \<and> index b = 2 \<and> previousHash b = calculate_hash first_block \<and> proof b = 0
         \<and> hash b = calculate_hash b
         \<and> is_chain_valid (blocks (last (chains (snd (send_message ''t1'' ''t2'' hello one_ledger)))))"
    using first_block_valid by (simp add: i)
  then show ?thesis
    using first_block_valid by blast
qed

text \<open>
  Claim C10. Called with registered sender and recipient while \<open>chains\<close> is empty,
  \<open>send_message\<close> creates one ledger with one block: index 1, previousHash "0", stored hash
  equal to its recomputed digest, and carrying the caller's message (not the sentinel
  genesis message); \<open>is_chain_valid\<close> accepts this one-block ledger.
\<close>

theorem send_message_first_ledger:
  assumes "(ipAddress (sender msg), uuid (sender msg)) \<in> participants st"
      and "(ipAddress (recipient msg), uuid (recipient msg)) \<in> participants st"
      and "chains st = []"
      and "st' = snd (send_message now1 now2 msg st)"
  shows "\<exists>b. fst (send_message now1 now2 msg st) =
            Inr (JObj [(''status'', JStr ''success''), (''message'', JStr ''Message added to blockchain'')])
          \<and> chains st' = [new_chain b now2] \<and> blocks (new_chain b now2) = [b]
          \<and> index b = 1 \<and> previousHash b = ''0'' \<and> hash b = calculate_hash b
          \<and> message b = msg \<and> is_chain_valid (blocks (new_chain b now2))"
  apply (rule exI[of _ "new_block_of now1 msg []"])
  using send_message_first[OF assms(1,2,3), of now1 now2] assms(4)
  by (simp add: new_block_of_fields save_chain_def new_chain_def is_chain_valid_single)

theorem send_message_first_ledger_witness:
  "chains registered = []
   \<and> content hello \<noteq> content (message (genesis_block ''t1'' ''t2''))
   \<and> (\<exists>b. chains (snd (send_message ''t1'' ''t2'' hello registered)) = [new_chain b ''t2'']
         \<and> index b = 1 \<and> previousHash b = ''0'' \<and> hash b = calculate_hash b
         \<and> message b = hello \<and> is_chain_valid [b])"
  using send_message_first_ledger[OF registered_hello(1,2) _ refl, of "''t1''" "''t2''"]
  by (simp add: registered_def new_chain_def hello_def genesis_block_def)

text \<open>
  Claim C5. A rejected call changes nothing: when \<open>share_latest_chain\<close> is given a proposal
  that \<open>is_chain_valid\<close> rejects, and when \<open>send_message\<close> is given a message whose sender or
  recipient is not registered, the call raises the HTTP 400 error and the state after it
  (the chain list with every block list, the participants, the saved files) is the state
  before it.
\<close>

theorem failure_leaves_state:
  "(\<not> is_chain_valid (blocks proposal) \<longrightarrow>
      share_latest_chain proposal st = (Inl (HTTPException 400 ''Invalid chain''), st))
   \<and> ((ipAddress (sender msg), uuid (sender msg)) \<notin> participants st
        \<or> (ipAddress (recipient msg), uuid (recipient msg)) \<notin> participants st \<longrightarrow>
      send_message now1 now2 msg st =
        (Inl (HTTPException 400 ''Sender or recipient is not a registered participant''), st))"
  using send_message_rejected[of msg st now1 now2] by (simp add: share_latest_chain_def)

theorem failure_leaves_state_witness:
  "\<not> is_chain_valid (blocks (new_chain gap_block ''t3''))
   \<and> share_latest_chain (new_chain gap_block ''t3'') one_ledger =
        (Inl (HTTPException 400 ''Invalid chain''), one_ledger)
   \<and> (ipAddress (sender intrusion), uuid (sender intrusion)) \<notin> participants one_ledger
   \<and> send_message ''t1'' ''t2'' intrusion one_ledger =
        (Inl (HTTPException 400 ''Sender or recipient is not a registered participant''), one_ledger)"
proof -
  have a: "\<not> is_chain_valid (blocks (new_chain gap_block ''t3''))"
    by (simp add: new_chain_def is_chain_valid_single gap_block_def)
  have b: "(ipAddress (sender intrusion), uuid (sender intrusion)) \<notin> participants one_ledger"
    by (simp add: intrusion_def mallory_def one_ledger_def registered_def)
  show ?thesis
    using failure_leaves_state[of "new_chain gap_block ''t3''" one_ledger intrusion "''t1''" "''t2''"] a b
    by simp
qed

section \<open>Ledgers grown from \<open>create_genesis\<close>\<close>

lemma genesis_inv_create:
  assumes "chains st = []" "participants st = {}"
  shows "genesis_inv (snd (create_genesis now1 now2 now3 st))"
  using assms
  by (simp add: create_genesis_def Let_def genesis_inv_def save_chain_def save_participants_def
      new_chain_def genesis_block_def)

lemma genesis_inv_send:
  assumes "genesis_inv st"
  shows "genesis_inv (snd (send_message now1 now2 msg st))"
proof (cases "(ipAddress (sender msg), uuid (sender msg)) \<in> participants st
     \<and> (ipAddress (recipient msg), uuid (recipient msg)) \<in> participants st")
  case False
  then show ?thesis using assms send_message_rejected[of msg st now1 now2] by auto
next
  case True
  from assms have ne: "chains st \<noteq> []" "blocks (last (chains st)) \<noteq> []"
    by (auto simp: genesis_inv_def)
  from assms have b: "butlast (chains st) = []"
    by (cases "chains st") (auto simp: genesis_inv_def)
  show ?thesis
    using send_message_next[OF conjunct1[OF True] conjunct2[OF True] ne, of now1 now2] assms b
    by (simp add: genesis_inv_def save_chain_def nth_append)
qed

lemma genesis_inv_register:
  "genesis_inv st \<Longrightarrow> genesis_inv (snd (register_participant p st))"
  by (simp add: register_participant_def Let_def genesis_inv_def save_participants_def)

lemma genesis_inv_apply_ops: "genesis_inv st \<Longrightarrow> genesis_inv (apply_ops ops st)"
  unfolding apply_ops_def
proof (induction ops arbitrary: st)
  case Nil
  then show ?case by simp
next
  case (Cons x ops)
  have "genesis_inv (apply_op x st)"
    using Cons.prems by (cases x) (simp_all add: genesis_inv_send genesis_inv_register)
  then show ?case using Cons.IH by simp
qed

lemma alice_bob_registered:
  "apply_ops [RegisterParticipant alice, RegisterParticipant bob]
     (snd (create_genesis t1 t2 t3 empty_state)) =
   \<lparr>chains = [new_chain (genesis_block t1 t2) t3],
    participants = {(''10.0.0.2'', ''b2''), (''10.0.0.1'', ''a1'')},
    chain_file = Some [new_chain (genesis_block t1 t2) t3],
    participants_file = Some {(''10.0.0.2'', ''b2''), (''10.0.0.1'', ''a1'')}\<rparr>"
  by (simp add: apply_ops_def create_genesis_def empty_state_def Let_def save_chain_def
      save_participants_def register_participant_def alice_def bob_def)

text \<open>
  Claim C1 says that \<open>is_chain_valid\<close> accepts every ledger made by \<open>create_genesis\<close> and
  then extended by \<open>send_message\<close>. The code does the opposite: \<open>create_genesis\<close> stores the
  genesis block with the hash "0", which is never the 64-character digest the validator
  recomputes, so from a fresh state \<open>create_genesis\<close> succeeds and after any run of
  registrations and \<open>send_message\<close> calls the single ledger is rejected.
\<close>

theorem genesis_ledger_rejected:
  assumes "chains st = []" "participants st = {}"
      and "st' = apply_ops ops (snd (create_genesis now1 now2 now3 st))"
  shows "fst (create_genesis now1 now2 now3 st) =
           Inr (JObj [(''status'', JStr ''success''),
                      (''message'', JStr ''Genesis block created and blockchain initialized'')])
         \<and> length (chains st') = 1
         \<and> \<not> is_chain_valid (blocks (last (chains st')))"
proof -
  have "genesis_inv st'"
    using assms by (simp add: genesis_inv_apply_ops genesis_inv_create)
  then show ?thesis
    using assms(1,2) is_chain_valid_hash_0[of "blocks (last (chains st'))"]
    by (simp add: genesis_inv_def create_genesis_def Let_def)
qed

theorem genesis_ledger_rejected_witness:
  "blocks (last (chains (snd (create_genesis ''t1'' ''t2'' ''t3'' empty_state)))) =
      [genesis_block ''t1'' ''t2'']
   \<and> \<not> is_chain_valid [genesis_block ''t1'' ''t2'']
   \<and> length (blocks (last (chains (apply_ops
        [RegisterParticipant alice, RegisterParticipant bob, SendMessage ''t4'' ''t5'' hello]
        (snd (create_genesis ''t1'' ''t2'' ''t3'' empty_state)))))) = 2
   \<and> \<not> is_chain_valid (blocks (last (chains (apply_ops
        [RegisterParticipant alice, RegisterParticipant bob, SendMessage ''t4'' ''t5'' hello]
        (snd (create_genesis ''t1'' ''t2'' ''t3'' empty_state))))))"
proof -
  have e: "chains empty_state = []" "participants empty_state = {}"
    by (simp_all add: empty_state_def)
  have g: "blocks (last (chains (snd (create_genesis ''t1'' ''t2'' ''t3'' empty_state)))) =
      [genesis_block ''t1'' ''t2'']"
    by (simp add: create_genesis_def e Let_def save_chain_def save_participants_def new_chain_def)
  have s: "apply_ops
        [RegisterParticipant alice, RegisterParticipant bob, SendMessage ''t4'' ''t5'' hello] st =
      snd (send_message ''t4'' ''t5'' hello
        (apply_ops [RegisterParticipant alice, RegisterParticipant bob] st))" for st
    by (simp add: apply_ops_def)
  have l: "length (blocks (last (chains (apply_ops
        [RegisterParticipant alice, RegisterParticipant bob, SendMessage ''t4'' ''t5'' hello]
        (snd (create_genesis ''t1'' ''t2'' ''t3'' empty_state)))))) = 2"
    unfolding s alice_bob_registered
    by (subst send_message_next)
      (simp_all add: hello_def alice_def bob_def new_chain_def save_chain_def)
  show ?thesis
    using genesis_ledger_rejected[where ops = "[]" and ?now1.0 = "''t1''" and ?now2.0 = "''t2''"
        and ?now3.0 = "''t3''", OF e refl]
      genesis_ledger_rejected[where ops =
          "[RegisterParticipant alice, RegisterParticipant bob, SendMessage ''t4'' ''t5'' hello]"
        and ?now1.0 = "''t1''" and ?now2.0 = "''t2''" and ?now3.0 = "''t3''", OF e refl] g l
    by (simp add: apply_ops_def)
qed

section \<open>\<open>json.loads\<close> inverts \<open>json.dumps\<close>\<close>

subsection \<open>Strings\<close>

lemma hex_val_hexdigit_upt: "list_all (\<lambda>n. hex_val (hexdigit n) = Some n) [0..<16]"
  by (simp add: upt_rec hexdigit_def hex_val_def)

lemma hex_val_hexdigit: "n < 16 \<Longrightarrow> hex_val (hexdigit n) = Some n"
  using hex_val_hexdigit_upt by (simp add: list_all_iff)

lemma decode_uXXXX_hex:
  assumes "a < 16" "b < 16"
  shows "decode_uXXXX (CHR ''0'' # CHR ''0'' # hexdigit a # hexdigit b # r) = Some (a * 16 + b)"
proof -
  have z: "hex_val CHR ''0'' = Some 0" by (simp add: hex_val_def)
  show ?thesis
    using assms by (simp add: decode_uXXXX_def z hex_val_hexdigit)
qed

lemma of_char_lt_256: "(of_char c :: nat) < 256"
  by (cases c) (simp add: of_char_Char)

lemma scanstring_escape:
  assumes "scanstring s = Some (str, rest)"
  shows "scanstring (escape_char c @ s) = Some (c # str, rest)"
proof -
  have d: "(of_char c :: nat) div 16 < 16" using of_char_lt_256[of c] by arith
  have m: "(of_char c :: nat) mod 16 < 16" by simp
  have rt: "char_of ((of_char c :: nat) div 16 * 16 + of_char c mod 16) = c" by simp
  have lt: "\<not> 256 \<le> (of_char c :: nat)"
    by (simp add: not_le of_char_lt_256)
  show ?thesis
    using assms decode_uXXXX_hex[OF d m] rt lt
    by (auto simp: escape_char_def backslash_def)
qed

lemma scanstring_encoded:
  "scanstring (concat (map escape_char s) @ CHR 0x22 # rest) = Some (s, rest)"
  by (induction s) (simp_all add: scanstring_escape)

subsection \<open>Integers\<close>

lemma of_char_digit_char: "(of_char (digit_char n) :: nat) = 48 + n mod 10"
proof -
  have "48 + n mod 10 < 256" by (rule less_le_trans[of _ 58]) simp_all
  then show ?thesis by (simp add: digit_char_def)
qed

lemma is_digit_digit_char [simp]: "is_digit (digit_char n)"
  by (simp add: is_digit_def of_char_digit_char)

lemma digit_char_0: "digit_char 0 = CHR ''0''"
proof -
  have "(of_char (digit_char 0) :: nat) = of_char CHR ''0''"
    by (simp add: of_char_digit_char)
  then show ?thesis by (simp only: of_char_eq_iff)
qed

lemma digit_char_eq_0: "n < 10 \<Longrightarrow> digit_char n = CHR ''0'' \<longleftrightarrow> n = 0"
proof
  assume "n < 10" "digit_char n = CHR ''0''"
  then have "(of_char (digit_char n) :: nat) = of_char CHR ''0''" by simp
  then show "n = 0" using \<open>n < 10\<close> by (simp add: of_char_digit_char)
next
  assume "n = 0" then show "digit_char n = CHR ''0''" by (simp add: digit_char_0)
qed

lemma digit_char_not_minus [simp]: "digit_char n \<noteq> CHR ''-''"
proof
  assume "digit_char n = CHR ''-''"
  then have "(of_char (digit_char n) :: nat) = of_char CHR ''-''" by simp
  then show False by (simp add: of_char_digit_char)
qed

lemma nat_str_nonempty [simp]: "nat_str n \<noteq> []"
  by (subst nat_str.simps) simp

lemma nat_str_digits: "c \<in> set (nat_str n) \<Longrightarrow> is_digit c"
proof (induction n arbitrary: c rule: nat_str.induct)
  case (1 n)
  show ?case
  proof (cases "n < 10")
    case True
    with "1.prems" show ?thesis by (subst (asm) nat_str.simps) auto
  next
    case False
    with "1.prems" "1.IH" show ?thesis by (subst (asm) nat_str.simps) auto
  qed
qed

lemma digits_val_snoc: "digits_val (ds @ [d]) = 10 * digits_val ds + ((of_char d :: nat) - 48)"
  by (simp add: digits_val_def)

lemma digits_val_nat_str: "digits_val (nat_str n) = n"
proof (induction n rule: nat_str.induct)
  case (1 n)
  show ?case
  proof (cases "n < 10")
    case True
    then show ?thesis
      by (subst nat_str.simps) (simp add: digits_val_def of_char_digit_char)
  next
    case False
    then have "digits_val (nat_str n) = 10 * digits_val (nat_str (n div 10)) + n mod 10"
      by (subst nat_str.simps) (simp add: digits_val_snoc of_char_digit_char)
    with False "1.IH" show ?thesis by simp
  qed
qed

lemma hd_nat_str_0: "hd (nat_str n) = CHR ''0'' \<longleftrightarrow> n = 0"
proof (induction n rule: nat_str.induct)
  case (1 n)
  show ?case
  proof (cases "n < 10")
    case True
    then show ?thesis by (subst nat_str.simps) (simp add: digit_char_eq_0)
  next
    case False
    then have "hd (nat_str n) = hd (nat_str (n div 10))"
      by (subst nat_str.simps) simp
    with False "1.IH" show ?thesis by simp
  qed
qed

lemma hd_nat_str_digit: "is_digit (hd (nat_str n))"
  by (rule nat_str_digits[of _ n]) simp

lemma value_end_no_digit: "value_end rest \<Longrightarrow> takeWhile is_digit rest = []"
  by (cases rest) (auto simp: value_end_def is_digit_def)

lemma value_end_no_float: "value_end rest \<Longrightarrow> \<not> float_follows rest"
  by (cases rest) (auto simp: value_end_def float_follows_def split: list.splits)

lemma match_number_nat_str:
  assumes "value_end rest"
  shows "match_number (nat_str n @ rest) = Some (int n, rest)"
proof -
  obtain d ds where s: "nat_str n = d # ds"
    by (cases "nat_str n") simp_all
  have d: "is_digit d" "d \<noteq> CHR ''-''"
    using nat_str_digits[of d n] s by (auto simp: is_digit_def)
  have ds: "\<forall>c \<in> set ds. is_digit c"
    using nat_str_digits[of _ n] s by simp
  have v: "digits_val (d # ds) = n"
    using digits_val_nat_str[of n] s by simp
  show ?thesis
  proof (cases "d = CHR ''0''")
    case True
    then have n: "n = 0" using hd_nat_str_0[of n] s by simp
    then have "nat_str n = ''0''" by (subst nat_str.simps) (simp add: digit_char_0)
    then show ?thesis
      using value_end_no_float[OF assms] n
      by (simp add: match_number_def Let_def is_digit_def digits_val_def)
  next
    case False
    have t: "takeWhile is_digit (ds @ rest) = ds"
      using ds value_end_no_digit[OF assms] by (simp add: takeWhile_append2)
    show ?thesis
      using False d v t value_end_no_float[OF assms]
      by (simp add: match_number_def Let_def s)
  qed
qed

lemma match_number_int_str:
  assumes "value_end rest"
  shows "match_number (int_str i @ rest) = Some (i, rest)"
proof (cases "i < 0")
  case False
  then show ?thesis
    using match_number_nat_str[OF assms, of "nat i"] by (simp add: int_str_def)
next
  case True
  let ?n = "nat (- i)"
  obtain d ds where s: "nat_str ?n = d # ds"
    by (cases "nat_str ?n") simp_all
  have d: "is_digit d"
    using nat_str_digits[of d ?n] s by simp
  have nz: "d \<noteq> CHR ''0''"
    using hd_nat_str_0[of ?n] s True by simp
  have ds: "\<forall>c \<in> set ds. is_digit c"
    using nat_str_digits[of _ ?n] s by simp
  have v: "digits_val (d # ds) = ?n"
    using digits_val_nat_str[of ?n] s by simp
  have t: "takeWhile is_digit (ds @ rest) = ds"
    using ds value_end_no_digit[OF assms] by (simp add: takeWhile_append2)
  show ?thesis
    using True d nz v t value_end_no_float[OF assms]
    by (simp add: match_number_def Let_def s int_str_def)
qed

subsection \<open>Arrays\<close>

lemma join_Cons: "xs \<noteq> [] \<Longrightarrow> join sep (x # xs) = x @ sep @ join sep xs"
  by (cases xs) simp_all

lemma skip_ws_non_ws [simp]: "\<not> is_ws c \<Longrightarrow> skip_ws (c # r) = c # r"
  by (simp add: skip_ws_def)

lemma skip_ws_space [simp]: "skip_ws (CHR '' '' # r) = skip_ws r"
  by (simp add: skip_ws_def is_ws_def)

lemma skip_ws_Nil [simp]: "skip_ws [] = []"
  by (simp add: skip_ws_def)

lemma is_ws_simps [simp]:
  "\<not> is_ws CHR '',''" "\<not> is_ws CHR '']''" "\<not> is_ws CHR ''}''" "\<not> is_ws CHR '':''"
  "\<not> is_ws (CHR 0x22)" "\<not> is_ws CHR ''[''" "\<not> is_ws CHR ''{''"
  by (simp_all add: is_ws_def)

lemma is_digit_not_ws: "is_digit c \<Longrightarrow> \<not> is_ws c \<and> c \<noteq> CHR '']'' \<and> c \<noteq> CHR 0x22
    \<and> c \<noteq> CHR ''{'' \<and> c \<noteq> CHR ''['' \<and> c \<noteq> CHR ''n'' \<and> c \<noteq> CHR ''t'' \<and> c \<noteq> CHR ''f''"
  by (auto simp: is_digit_def is_ws_def)

lemma int_str_first: "\<exists>c cs. int_str i = c # cs \<and> (is_digit c \<or> c = CHR ''-'')"
proof (cases "i < 0")
  case True
  then show ?thesis by (simp add: int_str_def)
next
  case False
  obtain d ds where "nat_str (nat i) = d # ds" by (cases "nat_str (nat i)") simp_all
  moreover from this have "is_digit d" using nat_str_digits[of d "nat i"] by simp
  ultimately show ?thesis using False by (simp add: int_str_def)
qed

lemma json_dumps_first: "\<exists>c cs. json_dumps v = c # cs \<and> value_start c"
proof (cases v)
  case (JInt i)
  obtain c cs where "int_str i = c # cs" "is_digit c \<or> c = CHR ''-''"
    using int_str_first by blast
  then show ?thesis using JInt is_digit_not_ws[of c]
    by (auto simp: value_start_def is_ws_def)
qed (auto simp: value_start_def is_ws_def encode_basestring_ascii_def)

lemma skip_ws_json_dumps [simp]: "skip_ws (json_dumps v @ r) = json_dumps v @ r"
  using json_dumps_first[of v] by (auto simp: value_start_def)

lemma scan_once_string:
  "scan_once (Suc m) (CHR 0x22 # r) =
     (case scanstring r of None \<Rightarrow> None | Some (str, rest) \<Rightarrow> Some (JStr str, rest))"
  by simp

lemma scan_once_array:
  "scan_once (Suc m) (CHR ''['' # r) =
     (case skip_ws r of [] \<Rightarrow> None
      | c # r' \<Rightarrow> if c = CHR '']'' then Some (JList [], r')
          else (case JSONArray m (c # r') of None \<Rightarrow> None
                | Some (values, rest) \<Rightarrow> Some (JList values, rest)))"
  by simp

lemma scan_once_object:
  "scan_once (Suc m) (CHR ''{'' # r) =
     (case skip_ws r of [] \<Rightarrow> None
      | c # r' \<Rightarrow> if c = CHR ''}'' then Some (JObj [], r')
          else (case JSONObject m (c # r') of None \<Rightarrow> None
                | Some (pairs, rest) \<Rightarrow> Some (JObj (dict pairs), rest)))"
  by simp

lemma scan_once_null: "scan_once (Suc m) (''null'' @ rest) = Some (JNull, rest)"
  by simp

lemma scan_once_true: "scan_once (Suc m) (''true'' @ rest) = Some (JBool True, rest)"
  by simp

lemma scan_once_false: "scan_once (Suc m) (''false'' @ rest) = Some (JBool False, rest)"
  by simp

lemma scan_once_number:
  assumes "is_digit c \<or> c = CHR ''-''"
  shows "scan_once (Suc m) (c # r) =
     (case match_number (c # r) of None \<Rightarrow> None | Some (i, rest) \<Rightarrow> Some (JInt i, rest))"
proof -
  have ne: "c \<noteq> CHR 0x22" "c \<noteq> CHR ''{''" "c \<noteq> CHR ''[''"
    "c \<noteq> CHR ''n''" "c \<noteq> CHR ''t''" "c \<noteq> CHR ''f''"
    using assms by (auto simp: is_digit_def)
  show ?thesis by (simp add: ne)
qed

lemma JSONArray_step:
  "JSONArray (Suc n) s =
     (case scan_once n s of None \<Rightarrow> None
      | Some (val, r) \<Rightarrow>
          (case skip_ws r of [] \<Rightarrow> None
           | nextchar # r' \<Rightarrow>
               if nextchar = CHR '']'' then Some ([val], r')
               else if nextchar \<noteq> CHR '','' then None
               else (case JSONArray n (skip_ws r') of None \<Rightarrow> None
                     | Some (values, rest) \<Rightarrow> Some (val # values, rest))))"
  by simp

declare scan_once.simps [simp del] JSONArray.simps [simp del] JSONObject.simps [simp del]

lemma value_end_simps [simp]:
  "value_end []" "value_end (CHR '','' # r)" "value_end (CHR '']'' # r)" "value_end (CHR ''}'' # r)"
  by (simp_all add: value_end_def)

lemma JSONArray_items:
  assumes "xs \<noteq> []"
    and "\<And>x n rest. x \<in> set xs \<Longrightarrow> value_end rest \<Longrightarrow> length (json_dumps x) \<le> n \<Longrightarrow>
           scan_once n (json_dumps x @ rest) = Some (sort_keys x, rest)"
    and "length (join '', '' (map json_dumps xs)) < n"
  shows "JSONArray n (join '', '' (map json_dumps xs) @ CHR '']'' # rest) = Some (map sort_keys xs, rest)"
  using assms
proof (induction xs arbitrary: n rule: list_nonempty_induct)
  case (single x)
  then obtain m where n: "n = Suc m" by (cases n) simp_all
  have "scan_once m (json_dumps x @ CHR '']'' # rest) = Some (sort_keys x, CHR '']'' # rest)"
    using single n by simp
  then show ?case by (simp add: n JSONArray_step)
next
  case (cons x xs)
  then obtain m where n: "n = Suc m" by (cases n) simp_all
  let ?tail = "join '', '' (map json_dumps xs) @ CHR '']'' # rest"
  have j: "join '', '' (json_dumps x # map json_dumps xs) = json_dumps x @ '', '' @ join '', '' (map json_dumps xs)"
    using cons.hyps by (simp add: join_Cons)
  have len: "length (json_dumps x) \<le> m" "length (join '', '' (map json_dumps xs)) < m"
    using cons.prems(2) n by (simp_all add: j)
  have x: "scan_once m (json_dumps x @ CHR '','' # CHR '' '' # ?tail) = Some (sort_keys x, CHR '','' # CHR '' '' # ?tail)"
    using cons.prems(1)[of x "CHR '','' # CHR '' '' # ?tail" m] len by simp
  obtain y ys where xs: "xs = y # ys" using cons.hyps by (cases xs) simp_all
  have sk: "skip_ws ?tail = ?tail"
    using skip_ws_json_dumps[of y] by (cases ys) (simp_all add: xs)
  have t: "JSONArray m ?tail = Some (map sort_keys xs, rest)"
    using cons.IH[of m] cons.prems(1) len by simp
  show ?case
    using x t sk by (simp add: n j JSONArray_step)
qed

subsection \<open>Dictionaries and the round trip\<close>

lemma JSONObject_step:
  "JSONObject (Suc n) (CHR 0x22 # r) =
     (case scanstring r of None \<Rightarrow> None
      | Some (key, r1) \<Rightarrow>
          (case skip_ws r1 of [] \<Rightarrow> None
           | colon # r2 \<Rightarrow>
               if colon \<noteq> CHR '':'' then None
               else
                 (case scan_once n (skip_ws r2) of None \<Rightarrow> None
                  | Some (val, r3) \<Rightarrow>
                      (case skip_ws r3 of [] \<Rightarrow> None
                       | nextchar # r4 \<Rightarrow>
                           if nextchar = CHR ''}'' then Some ([(key, val)], r4)
                           else if nextchar \<noteq> CHR '','' then None
                           else (case JSONObject n (skip_ws r4) of None \<Rightarrow> None
                                 | Some (pairs, rest) \<Rightarrow> Some ((key, val) # pairs, rest))))))"
  by (simp add: JSONObject.simps)

lemma JSONObject_item:
  assumes "scan_once m (json_dumps (snd kv) @ R) = Some (sort_keys (snd kv), R)"
  shows "JSONObject (Suc m) (dumps_item kv @ R) =
     (case skip_ws R of [] \<Rightarrow> None
      | nextchar # r4 \<Rightarrow>
          if nextchar = CHR ''}'' then Some ([(fst kv, sort_keys (snd kv))], r4)
          else if nextchar \<noteq> CHR '','' then None
          else (case JSONObject m (skip_ws r4) of None \<Rightarrow> None
                | Some (pairs, rest) \<Rightarrow> Some ((fst kv, sort_keys (snd kv)) # pairs, rest)))"
proof -
  have s: "scanstring (concat (map escape_char (fst kv)) @ CHR 0x22 # CHR '':'' # CHR '' '' # json_dumps (snd kv) @ R)
      = Some (fst kv, CHR '':'' # CHR '' '' # json_dumps (snd kv) @ R)"
    by (rule scanstring_encoded)
  show ?thesis
    using assms by (simp add: dumps_item_def encode_basestring_ascii_def JSONObject_step s)
qed

lemma dumps_item_first: "\<exists>cs. dumps_item kv = CHR 0x22 # cs"
  by (simp add: dumps_item_def encode_basestring_ascii_def)

lemma JSONObject_items:
  assumes "ps \<noteq> []"
    and "\<And>kv n rest. kv \<in> set ps \<Longrightarrow> value_end rest \<Longrightarrow> length (json_dumps (snd kv)) \<le> n \<Longrightarrow>
           scan_once n (json_dumps (snd kv) @ rest) = Some (sort_keys (snd kv), rest)"
    and "length (join '', '' (map dumps_item ps)) < n"
  shows "JSONObject n (join '', '' (map dumps_item ps) @ CHR ''}'' # rest) =
           Some (map (\<lambda>kv. (fst kv, sort_keys (snd kv))) ps, rest)"
  using assms
proof (induction ps arbitrary: n rule: list_nonempty_induct)
  case (single kv)
  then obtain m where n: "n = Suc m" by (cases n) simp_all
  have "length (json_dumps (snd kv)) \<le> m"
    using single(2) n by (simp add: dumps_item_def)
  then have "scan_once m (json_dumps (snd kv) @ CHR ''}'' # rest) = Some (sort_keys (snd kv), CHR ''}'' # rest)"
    using single(1)[of kv "CHR ''}'' # rest" m] by simp
  then show ?case by (simp add: n JSONObject_item)
next
  case (cons kv ps)
  then obtain m where n: "n = Suc m" by (cases n) simp_all
  let ?tail = "join '', '' (map dumps_item ps) @ CHR ''}'' # rest"
  have j: "join '', '' (dumps_item kv # map dumps_item ps) = dumps_item kv @ '', '' @ join '', '' (map dumps_item ps)"
    using cons.hyps by (simp add: join_Cons)
  have "length (join '', '' (dumps_item kv # map dumps_item ps)) < Suc m"
    using cons.prems(2) n by simp
  then have len: "length (json_dumps (snd kv)) \<le> m" "length (join '', '' (map dumps_item ps)) < m"
    unfolding j by (simp_all add: dumps_item_def)
  have x: "scan_once m (json_dumps (snd kv) @ CHR '','' # CHR '' '' # ?tail)
      = Some (sort_keys (snd kv), CHR '','' # CHR '' '' # ?tail)"
    using cons.prems(1)[of kv "CHR '','' # CHR '' '' # ?tail" m] len by simp
  obtain q qs where ps: "ps = q # qs" using cons.hyps by (cases ps) simp_all
  obtain cs where q: "dumps_item q = CHR 0x22 # cs" using dumps_item_first by blast
  have sk: "skip_ws ?tail = ?tail"
    by (cases qs) (simp_all add: ps q)
  have t: "JSONObject m ?tail = Some (map (\<lambda>kv. (fst kv, sort_keys (snd kv))) ps, rest)"
    using cons.IH[of m] cons.prems(1) len by simp
  show ?case
    using JSONObject_item[OF x] t sk by (simp add: n j)
qed

lemma dict_set_fresh: "fst kv \<notin> fst ` set d \<Longrightarrow> dict_set d kv = d @ [kv]"
  by (induction d) auto

lemma foldl_dict_set_distinct:
  "distinct (map fst (acc @ ps)) \<Longrightarrow> foldl dict_set acc ps = acc @ ps"
proof (induction ps arbitrary: acc)
  case Nil
  then show ?case by simp
next
  case (Cons kv ps)
  then have "dict_set acc kv = acc @ [kv]" by (intro dict_set_fresh) auto
  then show ?case using Cons.IH[of "acc @ [kv]"] Cons.prems by simp
qed

lemma dict_distinct: "distinct (map fst ps) \<Longrightarrow> dict ps = ps"
  using foldl_dict_set_distinct[of "[]" ps] by (simp add: dict_def)

lemma json_dumps_JObj:
  "json_dumps (JObj kvs) = CHR ''{'' # join '', '' (map dumps_item (sort_key fst kvs)) @ ''}''"
proof -
  have "(\<lambda>kv. encode_basestring_ascii (fst kv) @ '': '' @ json_dumps (snd kv)) = dumps_item"
    by (rule ext) (simp add: dumps_item_def)
  then show ?thesis by simp
qed

lemma scan_once_json_dumps:
  "wf_json v \<Longrightarrow> value_end rest \<Longrightarrow> length (json_dumps v) \<le> n \<Longrightarrow>
   scan_once n (json_dumps v @ rest) = Some (sort_keys v, rest)"
proof (induction v arbitrary: n rest)
  case JNull
  then obtain m where "n = Suc m" by (cases n) simp_all
  then show ?case using scan_once_null[of m rest] by simp
next
  case (JBool b)
  then obtain m where "n = Suc m" by (cases n) (simp_all split: if_splits)
  then show ?case using scan_once_true[of m rest] scan_once_false[of m rest] by simp
next
  case (JInt i)
  obtain c cs where c: "int_str i = c # cs" "is_digit c \<or> c = CHR ''-''"
    using int_str_first by blast
  from JInt c obtain m where n: "n = Suc m" by (cases n) simp_all
  have "scan_once (Suc m) (c # cs @ rest) =
     (case match_number (c # cs @ rest) of None \<Rightarrow> None | Some (i, rest) \<Rightarrow> Some (JInt i, rest))"
    by (rule scan_once_number[OF c(2)])
  then show ?case
    using match_number_int_str[OF JInt(2), of i] c(1) n by simp
next
  case (JStr s)
  then obtain m where n: "n = Suc m" by (cases n) (simp_all add: encode_basestring_ascii_def)
  show ?case
    by (simp add: n encode_basestring_ascii_def scan_once_string scanstring_encoded)
next
  case (JList xs)
  then obtain m where n: "n = Suc m" by (cases n) simp_all
  show ?case
  proof (cases "xs = []")
    case True
    then show ?thesis by (simp add: n scan_once_array)
  next
    case False
    obtain y ys where xs: "xs = y # ys" using False by (cases xs) simp_all
    obtain c cs where c: "json_dumps y = c # cs" "value_start c"
      using json_dumps_first by blast
    obtain rest0 where j: "join '', '' (map json_dumps xs) = c # rest0"
      by (cases ys) (simp_all add: xs c)
    have el: "\<And>x n rest. x \<in> set xs \<Longrightarrow> value_end rest \<Longrightarrow> length (json_dumps x) \<le> n \<Longrightarrow>
           scan_once n (json_dumps x @ rest) = Some (sort_keys x, rest)"
      using JList.IH JList.prems(1) by (simp add: list_all_iff)
    have len: "length (join '', '' (map json_dumps xs)) < m"
      using JList.prems(3) n by simp
    have "JSONArray m (join '', '' (map json_dumps xs) @ CHR '']'' # rest) = Some (map sort_keys xs, rest)"
      by (rule JSONArray_items[OF False el len])
    then show ?thesis
      using c(2) by (simp add: n scan_once_array j value_start_def)
  qed
next
  case (JObj kvs)
  then obtain m where n: "n = Suc m" by (cases n) simp_all
  let ?ps = "sort_key fst kvs"
  show ?case
  proof (cases "kvs = []")
    case True
    then show ?thesis by (simp add: n scan_once_object)
  next
    case False
    then have ne: "?ps \<noteq> []" by (metis length_0_conv length_sort)
    obtain q qs where ps: "?ps = q # qs" using ne by (cases ?ps) simp_all
    obtain cs where q: "dumps_item q = CHR 0x22 # cs" using dumps_item_first by blast
    obtain rest0 where j: "join '', '' (map dumps_item ?ps) = CHR 0x22 # rest0"
      by (cases qs) (simp_all add: ps q)
    have el: "\<And>kv n rest. kv \<in> set ?ps \<Longrightarrow> value_end rest \<Longrightarrow> length (json_dumps (snd kv)) \<le> n \<Longrightarrow>
           scan_once n (json_dumps (snd kv) @ rest) = Some (sort_keys (snd kv), rest)"
    proof -
      fix kv n rest
      assume a: "kv \<in> set ?ps" "value_end rest" "length (json_dumps (snd kv)) \<le> n"
      then have kv: "kv \<in> set kvs" by simp
      then have wf: "wf_json (snd kv)" using JObj.prems(1) by (simp add: list_all_iff)
      have "snd kv \<in> Basic_BNFs.snds kv" by (cases kv) simp
      then show "scan_once n (json_dumps (snd kv) @ rest) = Some (sort_keys (snd kv), rest)"
        using JObj.IH[OF kv _ wf a(2,3)] by simp
    qed
    have len: "length (join '', '' (map dumps_item ?ps)) < m"
      using JObj.prems(3) n unfolding json_dumps_JObj by simp
    have items: "JSONObject m (join '', '' (map dumps_item ?ps) @ CHR ''}'' # rest) =
        Some (map (\<lambda>kv. (fst kv, sort_keys (snd kv))) ?ps, rest)"
      by (rule JSONObject_items[OF ne el len])
    have "distinct (map fst kvs)" using JObj.prems(1) by simp
    then have "distinct (map fst (map (\<lambda>kv. (fst kv, sort_keys (snd kv))) ?ps))"
      by (simp add: distinct_map comp_def)
    then have d: "dict (map (\<lambda>kv. (fst kv, sort_keys (snd kv))) ?ps) = map (\<lambda>kv. (fst kv, sort_keys (snd kv))) ?ps"
      by (rule dict_distinct)
    show ?thesis
      using items d by (simp add: n json_dumps_JObj scan_once_object j del: json_dumps.simps)
  qed
qed

lemma json_loads_json_dumps: "wf_json v \<Longrightarrow> json_loads (json_dumps v) = Inr (sort_keys v)"
  using scan_once_json_dumps[of v "[]" "length (json_dumps v)"] skip_ws_json_dumps[of v "[]"]
  by (simp add: json_loads_def)

section \<open>The consensus resolver\<close>

lemma count_of_Nil [simp]: "count_of [] x = 0"
  by (simp add: count_of_def)

lemma keys_counter_add: "fst ` set (counter_add c x) = insert x (fst ` set c)"
  by (induction c) auto

lemma distinct_counter_add: "distinct (map fst c) \<Longrightarrow> distinct (map fst (counter_add c x))"
proof (induction c)
  case Nil
  then show ?case by simp
next
  case (Cons p c)
  then show ?case using keys_counter_add[of c x] by (auto simp: image_iff)
qed

lemma positive_counter_add:
  "\<forall>p \<in> set c. 0 < snd p \<Longrightarrow> \<forall>p \<in> set (counter_add c x). 0 < snd p"
  by (induction c) auto

lemma count_of_counter_add:
  "\<forall>p \<in> set c. 0 < snd p \<Longrightarrow>
   count_of (counter_add c x) y = count_of c y + (if x = y then 1 else 0)"
proof (induction c)
  case Nil
  then show ?case by (simp add: count_of_def)
next
  case (Cons p c)
  then show ?case by (cases p) (auto simp: count_of_def split: option.splits)
qed

lemma Counter_foldl:
  assumes "distinct (map fst c)" "\<forall>p \<in> set c. 0 < snd p"
  shows "distinct (map fst (foldl counter_add c xs))
       \<and> (\<forall>p \<in> set (foldl counter_add c xs). 0 < snd p)
       \<and> fst ` set (foldl counter_add c xs) = fst ` set c \<union> set xs
       \<and> (\<forall>y. count_of (foldl counter_add c xs) y = count_of c y + count_list xs y)"
  using assms
proof (induction xs arbitrary: c)
  case Nil
  then show ?case by simp
next
  case (Cons x xs)
  have d: "distinct (map fst (counter_add c x))"
    using Cons.prems(1) by (rule distinct_counter_add)
  have p: "\<forall>p \<in> set (counter_add c x). 0 < snd p"
    using Cons.prems(2) by (rule positive_counter_add)
  show ?case
    using Cons.IH[OF d p] keys_counter_add[of c x] count_of_counter_add[OF Cons.prems(2), of x]
    by auto
qed

lemma Counter_props:
  "distinct (map fst (Counter xs))"
  "fst ` set (Counter xs) = set xs"
  "count_of (Counter xs) y = count_list xs y"
  using Counter_foldl[of "[]" xs] by (simp_all add: Counter_def)

lemma Counter_member:
  assumes "p \<in> set (Counter xs)"
  shows "fst p \<in> set xs \<and> snd p = count_list xs (fst p)"
proof -
  have "map_of (Counter xs) (fst p) = Some (snd p)"
    using assms Counter_props(1)[of xs] by (simp add: map_of_eq_Some_iff)
  then have "count_of (Counter xs) (fst p) = snd p" by (simp add: count_of_def)
  then show ?thesis
    using assms Counter_props(2,3)[of xs] by (metis image_eqI)
qed

lemma wf_json_proposal_dict:
  "wf_json (network c) \<Longrightarrow> wf_json (status c) \<Longrightarrow> wf_json (proposal_dict c)"
  by (simp add: proposal_dict_def block_dict_def message_dict_def sender_dict_def list_all_iff)

lemma keys_counter_add_list:
  "map fst (counter_add c x) = (if x \<in> fst ` set c then map fst c else map fst c @ [x])"
  by (induction c) auto

lemma Counter_snoc: "Counter (xs @ [x]) = counter_add (Counter xs) x"
  by (simp add: Counter_def)

lemma Counter_first_occurrence:
  "map fst (Counter xs) = ks1 @ k # ks2 \<Longrightarrow>
   \<exists>i < length xs. xs ! i = k \<and> set (take i xs) \<subseteq> set ks1"
proof (induction xs arbitrary: ks1 k ks2 rule: rev_induct)
  case Nil
  then show ?case by (simp add: Counter_def)
next
  case (snoc x xs)
  have keys: "fst ` set (Counter xs) = set xs" by (rule Counter_props(2))
  show ?case
  proof (cases "x \<in> set xs")
    case True
    then have "map fst (Counter xs) = ks1 @ k # ks2"
      using snoc.prems keys by (simp add: Counter_snoc keys_counter_add_list)
    from snoc.IH[OF this] obtain i where "i < length xs" "xs ! i = k" "set (take i xs) \<subseteq> set ks1"
      by blast
    then show ?thesis by (intro exI[of _ i]) (simp add: nth_append)
  next
    case False
    then have e: "map fst (Counter xs) @ [x] = ks1 @ k # ks2"
      using snoc.prems keys by (simp add: Counter_snoc keys_counter_add_list)
    show ?thesis
    proof (cases ks2 rule: rev_cases)
      case Nil
      with e have "map fst (Counter xs) = ks1" "k = x" by simp_all
      then have "set xs \<subseteq> set ks1" using keys by auto
      then show ?thesis using \<open>k = x\<close> by (intro exI[of _ "length xs"]) simp
    next
      case (snoc ks2' y)
      with e have "map fst (Counter xs) = ks1 @ k # ks2'" by simp
      from snoc.IH[OF this] obtain i where "i < length xs" "xs ! i = k" "set (take i xs) \<subseteq> set ks1"
        by blast
      then show ?thesis by (intro exI[of _ i]) (simp add: nth_append)
    qed
  qed
qed

lemma max_count_first:
  "\<exists>l1 l2. best # items = l1 @ max_count best items # l2
     \<and> (\<forall>p \<in> set l1. snd p < snd (max_count best items))
     \<and> (\<forall>p \<in> set l2. snd p \<le> snd (max_count best items))"
proof (induction items arbitrary: best)
  case Nil
  show ?case by (intro exI[of _ "[]"]) simp
next
  case (Cons item items)
  show ?case
  proof (cases "snd best < snd item")
    case True
    let ?r = "max_count item items"
    have mc: "max_count best (item # items) = ?r" using True by simp
    from Cons.IH[of item] obtain l1 l2 where
      l: "item # items = l1 @ ?r # l2" "\<forall>p \<in> set l1. snd p < snd ?r" "\<forall>p \<in> set l2. snd p \<le> snd ?r"
      by blast
    have "snd item \<le> snd ?r"
    proof (cases l1)
      case Nil
      with l(1) have "?r = item" by (metis append_Nil list.inject)
      then show ?thesis by (metis order_refl)
    next
      case (Cons a l1')
      with l(1) have "a = item" by (metis append_Cons list.inject)
      with Cons l(2) show ?thesis by auto
    qed
    with True have b: "snd best < snd ?r" by simp
    have "best # item # items = (best # l1) @ ?r # l2" using l(1) by simp
    moreover have "\<forall>p \<in> set (best # l1). snd p < snd ?r" using l(2) b by simp
    ultimately show ?thesis unfolding mc using l(3) by blast
  next
    case False
    let ?r = "max_count best items"
    have mc: "max_count best (item # items) = ?r" using False by simp
    from Cons.IH[of best] obtain l1 l2 where
      l: "best # items = l1 @ ?r # l2" "\<forall>p \<in> set l1. snd p < snd ?r" "\<forall>p \<in> set l2. snd p \<le> snd ?r"
      by blast
    show ?thesis
    proof (cases l1)
      case Nil
      with l(1) have r: "?r = best" "items = l2" by (metis append_Nil list.inject)+
      have "best # item # items = [] @ ?r # (item # l2)" using r by simp
      moreover have "\<forall>p \<in> set (item # l2). snd p \<le> snd ?r" using l(3) False r(1) by simp
      moreover have "\<forall>p \<in> set ([] :: ('a \<times> nat) list). snd p < snd ?r" by simp
      ultimately show ?thesis unfolding mc by blast
    next
      case (Cons a l1')
      with l(1) have a: "a = best" "items = l1' @ ?r # l2" by (metis append_Cons list.inject)+
      have b: "snd best < snd ?r" using l(2) Cons a(1) by simp
      have "best # item # items = (best # item # l1') @ ?r # l2" using a(2) by simp
      moreover have "\<forall>p \<in> set (best # item # l1'). snd p < snd ?r"
        using l(2) Cons b False by auto
      ultimately show ?thesis unfolding mc using l(3) by blast
    qed
  qed
qed

lemma most_common1_first:
  assumes "xs \<noteq> []"
  shows "\<exists>i < length xs. most_common1 (Counter xs) = [(xs ! i, count_list xs (xs ! i))]
           \<and> (\<forall>t \<in> set xs. count_list xs t \<le> count_list xs (xs ! i))
           \<and> (\<forall>j < i. count_list xs (xs ! j) < count_list xs (xs ! i))"
proof -
  have "set (Counter xs) \<noteq> {}"
    using Counter_props(2)[of xs] assms by auto
  then obtain item items where c: "Counter xs = item # items"
    by (cases "Counter xs") simp_all
  let ?r = "max_count item items"
  from max_count_first[of item items] obtain l1 l2 where
    l: "Counter xs = l1 @ ?r # l2" "\<forall>p \<in> set l1. snd p < snd ?r" "\<forall>p \<in> set l2. snd p \<le> snd ?r"
    using c by auto
  have r: "?r \<in> set (Counter xs)" using l(1) by simp
  have rc: "snd ?r = count_list xs (fst ?r)" using Counter_member[OF r] by simp
  have "map fst (Counter xs) = map fst l1 @ fst ?r # map fst l2"
    using l(1) by simp
  from Counter_first_occurrence[OF this] obtain i where
    i: "i < length xs" "xs ! i = fst ?r" "set (take i xs) \<subseteq> set (map fst l1)"
    by blast
  have le: "count_list xs t \<le> count_list xs (xs ! i)" if "t \<in> set xs" for t
  proof -
    from that obtain p where p: "p \<in> set (Counter xs)" "fst p = t"
      using Counter_props(2)[of xs] by (metis imageE)
    then have "snd p = count_list xs t" using Counter_member[OF p(1)] by simp
    moreover have "snd p \<le> snd ?r" using p(1) l by auto
    ultimately show ?thesis using rc i(2) by simp
  qed
  have lt: "count_list xs (xs ! j) < count_list xs (xs ! i)" if "j < i" for j
  proof -
    have "xs ! j \<in> set (take i xs)"
      using that i(1) by (metis in_set_conv_nth length_take min.absorb2 less_imp_le nth_take)
    then obtain p where p: "p \<in> set l1" "fst p = xs ! j" using i(3) by auto
    then have "p \<in> set (Counter xs)" using l(1) by simp
    then have "snd p = count_list xs (xs ! j)" using Counter_member[of p xs] p(2) by simp
    then show ?thesis using l(2) p(1) rc i(2) by auto
  qed
  have "most_common1 (Counter xs) = [(xs ! i, count_list xs (xs ! i))]"
    using rc i(2) by (simp add: most_common1_def c) (metis prod.collapse)
  then show ?thesis using i(1) le lt by blast
qed

lemma get_majority_chain_tie_break:
  assumes "chains st \<noteq> []"
      and "\<forall>c \<in> set (chains st). wf_json (network c) \<and> wf_json (status c)"
  shows "\<exists>i < length (chains st).
           get_majority_chain st = Inr (sort_keys (proposal_dict (chains st ! i)))
           \<and> (\<forall>c \<in> set (chains st). votes (chains st) c \<le> votes (chains st) (chains st ! i))
           \<and> (\<forall>j < i. votes (chains st) (chains st ! j) < votes (chains st) (chains st ! i))"
proof -
  let ?strs = "map (\<lambda>chain. json_dumps (proposal_dict chain)) (chains st)"
  have "?strs \<noteq> []" using assms(1) by simp
  from most_common1_first[OF this] obtain i where
    i: "i < length ?strs" "most_common1 (Counter ?strs) = [(?strs ! i, count_list ?strs (?strs ! i))]"
       "\<forall>t \<in> set ?strs. count_list ?strs t \<le> count_list ?strs (?strs ! i)"
       "\<forall>j < i. count_list ?strs (?strs ! j) < count_list ?strs (?strs ! i)"
    by blast
  have il: "i < length (chains st)" using i(1) by simp
  then have s: "?strs ! i = json_dumps (proposal_dict (chains st ! i))" by simp
  have "wf_json (proposal_dict (chains st ! i))"
    using assms(2) il by (simp add: wf_json_proposal_dict)
  then have "json_loads (?strs ! i) = Inr (sort_keys (proposal_dict (chains st ! i)))"
    unfolding s by (rule json_loads_json_dumps)
  then have "get_majority_chain st = Inr (sort_keys (proposal_dict (chains st ! i)))"
    using assms(1) i(2) by (simp add: get_majority_chain_def Let_def)
  moreover have "\<forall>c \<in> set (chains st). votes (chains st) c \<le> votes (chains st) (chains st ! i)"
    using i(3) il by (simp add: votes_def)
  moreover have "\<forall>j < i. votes (chains st) (chains st ! j) < votes (chains st) (chains st ! i)"
    using i(4) il by (simp add: votes_def)
  ultimately show ?thesis using il by blast
qed

text \<open>
  Claim C8. With no proposal stored, \<open>get_majority_chain\<close> returns the empty dictionary
  \<open>{}\<close>; it does not raise.
\<close>

theorem get_majority_chain_empty: "chains st = [] \<Longrightarrow> get_majority_chain st = Inr (JObj [])"
  by (simp add: get_majority_chain_def)

theorem get_majority_chain_empty_witness:
  "chains registered = [] \<and> get_majority_chain registered = Inr (JObj [])"
  using get_majority_chain_empty[of registered] by (simp add: registered_def)

text \<open>
  Claim C9. The result of \<open>get_majority_chain\<close> is determined by the proposal list, in its
  order: two states holding the same list of proposals get the same result, ties for the
  highest count included.
\<close>

theorem get_majority_chain_deterministic:
  "chains st1 = chains st2 \<Longrightarrow> get_majority_chain st1 = get_majority_chain st2"
  by (simp add: get_majority_chain_def)

lemma chain_a_b_serialised:
  "json_dumps (proposal_dict chain_a) \<noteq> json_dumps (proposal_dict chain_b)"
proof
  assume "json_dumps (proposal_dict chain_a) = json_dumps (proposal_dict chain_b)"
  then have "json_loads (json_dumps (proposal_dict chain_a))
      = json_loads (json_dumps (proposal_dict chain_b))"
    by simp
  moreover have "wf_json (proposal_dict chain_a)" "wf_json (proposal_dict chain_b)"
    by (simp_all add: wf_json_proposal_dict chain_a_def chain_b_def new_chain_def)
  ultimately have "sort_keys (proposal_dict chain_a) = sort_keys (proposal_dict chain_b)"
    by (simp add: json_loads_json_dumps)
  then show False
    by (simp add: proposal_dict_def chain_a_def chain_b_def new_chain_def)
qed

lemma tie_first_wins:
  "get_majority_chain (registered\<lparr>chains := [chain_a, chain_b]\<rparr>)
     = Inr (sort_keys (proposal_dict chain_a))"
proof -
  let ?st = "registered\<lparr>chains := [chain_a, chain_b]\<rparr>"
  have wf: "\<forall>c \<in> set (chains ?st). wf_json (network c) \<and> wf_json (status c)"
    by (simp add: chain_a_def chain_b_def new_chain_def)
  have ne: "chains ?st \<noteq> []" by simp
  have v: "votes (chains ?st) chain_a = 1" "votes (chains ?st) chain_b = 1"
    using chain_a_b_serialised by (auto simp: votes_def)
  obtain i where i: "i < length (chains ?st)"
      "get_majority_chain ?st = Inr (sort_keys (proposal_dict (chains ?st ! i)))"
      "\<forall>j < i. votes (chains ?st) (chains ?st ! j) < votes (chains ?st) (chains ?st ! i)"
    using get_majority_chain_tie_break[OF ne wf] by blast
  have "i = 0"
  proof (rule ccontr)
    assume "i \<noteq> 0"
    with i(1) have "i = 1" by simp
    with i(3) have "votes (chains ?st) chain_a < votes (chains ?st) chain_b" by simp
    with v show False by simp
  qed
  with i(2) show ?thesis by simp
qed

theorem get_majority_chain_deterministic_witness:
  "chains (registered\<lparr>chains := [chain_a, chain_b]\<rparr>) = chains (empty_state\<lparr>chains := [chain_a, chain_b]\<rparr>)
   \<and> participants (registered\<lparr>chains := [chain_a, chain_b]\<rparr>)
       \<noteq> participants (empty_state\<lparr>chains := [chain_a, chain_b]\<rparr>)
   \<and> votes [chain_a, chain_b] chain_a = votes [chain_a, chain_b] chain_b
   \<and> get_majority_chain (registered\<lparr>chains := [chain_a, chain_b]\<rparr>)
       = Inr (sort_keys (proposal_dict chain_a))
   \<and> get_majority_chain (empty_state\<lparr>chains := [chain_a, chain_b]\<rparr>)
       = Inr (sort_keys (proposal_dict chain_a))"
proof -
  have "votes [chain_a, chain_b] chain_a = votes [chain_a, chain_b] chain_b"
    using chain_a_b_serialised by (auto simp: votes_def)
  then show ?thesis
    using get_majority_chain_deterministic[of "registered\<lparr>chains := [chain_a, chain_b]\<rparr>"
        "empty_state\<lparr>chains := [chain_a, chain_b]\<rparr>"] tie_first_wins
    by (simp add: registered_def empty_state_def)
qed

text \<open>
  Claim C4. For a non-empty list of proposals (whose opaque \<open>network\<close> and \<open>status\<close>
  dictionaries are well-formed), \<open>get_majority_chain\<close> returns a stored proposal, as the
  dictionary \<open>json.loads\<close> rebuilds from its canonical serialisation: the proposal at the
  first position \<open>i\<close> such that no stored proposal has more votes (occurrences of its
  serialisation) than it; every proposal before it has strictly fewer. Hence a proposal
  with strictly more votes than every differently serialised proposal is the one returned,
  whatever the lengths of the ledgers, and for the list \<open>[A, A, B]\<close> the result is \<open>A\<close>.
\<close>

theorem get_majority_chain_plurality:
  assumes "chains st \<noteq> []"
      and "\<forall>c \<in> set (chains st). wf_json (network c) \<and> wf_json (status c)"
  shows "(\<exists>i < length (chains st).
            get_majority_chain st = Inr (sort_keys (proposal_dict (chains st ! i)))
            \<and> (\<forall>c \<in> set (chains st). votes (chains st) c \<le> votes (chains st) (chains st ! i))
            \<and> (\<forall>j < i. votes (chains st) (chains st ! j) < votes (chains st) (chains st ! i)))
       \<and> (\<forall>A \<in> set (chains st).
            (\<forall>c \<in> set (chains st).
               json_dumps (proposal_dict c) \<noteq> json_dumps (proposal_dict A) \<longrightarrow>
               votes (chains st) c < votes (chains st) A) \<longrightarrow>
            get_majority_chain st = Inr (sort_keys (proposal_dict A)))
       \<and> (\<forall>A B. chains st = [A, A, B] \<longrightarrow> get_majority_chain st = Inr (sort_keys (proposal_dict A)))"
proof -
  obtain i where i: "i < length (chains st)"
      "get_majority_chain st = Inr (sort_keys (proposal_dict (chains st ! i)))"
      "\<forall>c \<in> set (chains st). votes (chains st) c \<le> votes (chains st) (chains st ! i)"
      "\<forall>j < i. votes (chains st) (chains st ! j) < votes (chains st) (chains st ! i)"
    using get_majority_chain_tie_break[OF assms] by blast
  define w where "w = chains st ! i"
  have w: "w \<in> set (chains st)"
      "get_majority_chain st = Inr (sort_keys (proposal_dict w))"
      "\<forall>c \<in> set (chains st). votes (chains st) c \<le> votes (chains st) w"
    using i by (simp_all add: w_def)
  have strict: "get_majority_chain st = Inr (sort_keys (proposal_dict A))"
    if "A \<in> set (chains st)"
       "\<forall>c \<in> set (chains st). json_dumps (proposal_dict c) \<noteq> json_dumps (proposal_dict A) \<longrightarrow>
          votes (chains st) c < votes (chains st) A" for A
  proof -
    have "json_dumps (proposal_dict w) = json_dumps (proposal_dict A)"
    proof (rule ccontr)
      assume "json_dumps (proposal_dict w) \<noteq> json_dumps (proposal_dict A)"
      then have "votes (chains st) w < votes (chains st) A" using that(2) w(1) by blast
      moreover have "votes (chains st) A \<le> votes (chains st) w" using w(3) that(1) by blast
      ultimately show False by simp
    qed
    moreover have "wf_json (proposal_dict w)" "wf_json (proposal_dict A)"
      using assms(2) w(1) that(1) by (simp_all add: wf_json_proposal_dict)
    ultimately have "sort_keys (proposal_dict w) = sort_keys (proposal_dict A)"
      using json_loads_json_dumps[of "proposal_dict w"] json_loads_json_dumps[of "proposal_dict A"]
      by simp
    then show ?thesis using w(2) by simp
  qed
  have aab: "get_majority_chain st = Inr (sort_keys (proposal_dict A))"
    if "chains st = [A, A, B]" for A B
  proof (rule strict)
    show "A \<in> set (chains st)" using that by simp
    show "\<forall>c \<in> set (chains st). json_dumps (proposal_dict c) \<noteq> json_dumps (proposal_dict A) \<longrightarrow>
          votes (chains st) c < votes (chains st) A"
      using that by (auto simp: votes_def)
  qed
  show ?thesis using i strict aab by blast
qed

theorem get_majority_chain_plurality_witness:
  "length (blocks chain_b) = length (blocks chain_a) + 1
   \<and> chain_a \<noteq> chain_b
   \<and> get_majority_chain (registered\<lparr>chains := [chain_a, chain_a, chain_b]\<rparr>)
       = Inr (sort_keys (proposal_dict chain_a))"
proof -
  have wf: "\<forall>c \<in> set (chains (registered\<lparr>chains := [chain_a, chain_a, chain_b]\<rparr>)).
      wf_json (network c) \<and> wf_json (status c)"
    by (simp add: chain_a_def chain_b_def new_chain_def)
  have ne: "chains (registered\<lparr>chains := [chain_a, chain_a, chain_b]\<rparr>) \<noteq> []"
    by simp
  have l: "length (blocks chain_b) = length (blocks chain_a) + 1" "chain_a \<noteq> chain_b"
    by (auto simp: chain_a_def chain_b_def new_chain_def)
  show ?thesis
    using get_majority_chain_plurality[OF ne wf] l by simp
qed

end
